theory Spec2Isabelle
  imports Main
begin

section \<open>The crawler of \<open>src/crawler.mjs\<close>\<close>

text \<open>
  The crawler is one function, \<open>crawlSite\<close>, over two module-level collections
  (\<open>visited\<close>, \<open>queue\<close>). It calls three libraries: axios (one HTTP GET), cheerio
  (HTML parsing and CSS selection) and the URL class of Node. The libraries are not part
  of the repository; they are the fields of the record \<open>world\<close> below, and every theorem
  holds for every world.
\<close>

subsection \<open>Data\<close>

text \<open>The \<open>status\<close> field of a report entry: \<open>res.status\<close>, \<open>err.response.status\<close>,
  or the string \<open>'Erro'\<close>.\<close>

datatype status = Code nat | Erro

text \<open>
  A string whose characters matter, the text of an element, is the list of its UTF-16 code
  units, as JavaScript has it. For URLs, attribute values and selectors the program only
  tests equality and prefixes; they are kept as \<open>string\<close>.
\<close>

type_synonym code_units = "nat list"

text \<open>An entry of \<open>report\<close>. The entry pushed in the \<open>catch\<close> block has the fields
  \<open>url\<close>, \<open>status\<close> and \<open>depth\<close> only: the others are \<open>None\<close> there.\<close>

record page_record =
  url :: string
  status :: status
  title :: "code_units option"
  description :: "string option"
  h1 :: "nat option"
  h2 :: "nat option"
  canonical :: "string option"
  noindex :: "bool option"
  depth :: nat

text \<open>An entry \<open>{ url, depth }\<close> of \<open>queue\<close>.\<close>

record frontier_item =
  item_url :: string
  item_depth :: nat

text \<open>
  The module-level state: \<open>const visited = new Set()\<close> and \<open>const queue = []\<close>
  (lines 5 and 6). \<open>requests\<close> is not a variable of the program: it is the trace of the
  calls of \<open>axios.get\<close>, in order, so that "performs no fetch" can be stated.
\<close>

record crawler_state =
  visited :: "string set"
  queue :: "frontier_item list"
  requests :: "string list"

text \<open>An element of a cheerio selection: its attributes, and its text content (that of
  its descendants included).\<close>

record element =
  el_attrs :: "(string \<times> string) list"
  el_text :: code_units

text \<open>The function \<open>$\<close> returned by \<open>cheerio.load\<close>: from a selector to the elements it
  matches, in document order.\<close>

type_synonym dom = "string \<Rightarrow> element list"

text \<open>The outcome of \<open>await axios.get(url, { timeout: 10000 })\<close>: the promise resolves
  with \<open>res.status\<close> and \<open>res.data\<close>, or rejects with an error whose
  \<open>err.response?.status\<close> is a number or undefined.\<close>

datatype response = Resolved nat string | Rejected "nat option"

text \<open>
  The libraries. \<open>url_hostname s\<close> is \<open>new URL(s).hostname\<close> and \<open>url_href h b\<close> is
  \<open>new URL(h, b).href\<close>; \<open>None\<close> is the TypeError the constructor throws on a string
  it cannot parse. \<open>cheerio_load\<close> is \<open>cheerio.load(res.data)\<close>, \<open>None\<close> when it throws.
\<close>

record world =
  axios_get :: "string \<Rightarrow> response"
  cheerio_load :: "string \<Rightarrow> dom option"
  url_hostname :: "string \<Rightarrow> string option"
  url_href :: "string \<Rightarrow> string \<Rightarrow> string option"

datatype error = TypeError

subsection \<open>Strings and selections\<close>

text \<open>\<open>s.startsWith(p)\<close> and \<open>s.includes(p)\<close>.\<close>

definition startsWith :: "string \<Rightarrow> string \<Rightarrow> bool" where
  "startsWith s p = (take (length p) s = p)"

fun str_includes :: "string \<Rightarrow> string \<Rightarrow> bool" where
  "str_includes [] p = (p = [])"
| "str_includes (c # cs) p = (startsWith (c # cs) p \<or> str_includes cs p)"

text \<open>
  \<open>s.trim()\<close> removes the white space and the line terminators of ECMAScript from both
  ends: tab, line feed, vertical tab, form feed, carriage return, space, no-break space
  (U+00A0), U+1680, U+2000 to U+200A, line and paragraph separator (U+2028, U+2029),
  U+202F, U+205F, U+3000 and the byte order mark (U+FEFF).
\<close>

definition is_space :: "nat \<Rightarrow> bool" where
  "is_space c = (c \<in> set [0x09, 0x0A, 0x0B, 0x0C, 0x0D, 0x20, 0xA0, 0x1680, 0x2028, 0x2029,
                           0x202F, 0x205F, 0x3000, 0xFEFF] \<or> (0x2000 \<le> c \<and> c \<le> 0x200A))"

definition trim :: "code_units \<Rightarrow> code_units" where
  "trim s = rev (dropWhile is_space (rev (dropWhile is_space s)))"

text \<open>cheerio's \<open>.text()\<close> is the combined text of every element of the selection;
  \<open>.attr(name)\<close> reads the first element of the selection only and is undefined on an
  empty one; \<open>.length\<close> is the number of elements.\<close>

definition text_of :: "element list \<Rightarrow> code_units" where
  "text_of els = concat (map el_text els)"

definition attr_of :: "element list \<Rightarrow> string \<Rightarrow> string option" where
  "attr_of els name = (case els of [] \<Rightarrow> None | e # _ \<Rightarrow> map_of (el_attrs e) name)"

text \<open>\<open>x || ''\<close> on a string or undefined: the empty string is falsy too.\<close>

definition or_empty :: "string option \<Rightarrow> string" where
  "or_empty x = (case x of None \<Rightarrow> [] | Some s \<Rightarrow> s)"

subsection \<open>The body of the \<open>try\<close> block\<close>

text \<open>Line 30: the entry of a page that was fetched and parsed.\<close>

definition ok_record :: "dom \<Rightarrow> string \<Rightarrow> nat \<Rightarrow> nat \<Rightarrow> page_record" where
  "ok_record S u code d =
     \<lparr>url = u, status = Code code,
      title = Some (trim (text_of (S ''title''))),
      description = Some (or_empty (attr_of (S ''meta[name=\"description\"]'') ''content'')),
      h1 = Some (length (S ''h1'')),
      h2 = Some (length (S ''h2'')),
      canonical = Some (or_empty (attr_of (S ''link[rel=\"canonical\"]'') ''href'')),
      noindex = Some (case attr_of (S ''meta[name=\"robots\"]'') ''content'' of
                        None \<Rightarrow> False | Some c \<Rightarrow> str_includes c ''noindex''),
      depth = d\<rparr>"

text \<open>Line 47: the entry pushed by the \<open>catch\<close> block.\<close>

definition error_record :: "string \<Rightarrow> status \<Rightarrow> nat \<Rightarrow> page_record" where
  "error_record u s d =
     \<lparr>url = u, status = s, title = None, description = None, h1 = None, h2 = None,
      canonical = None, noindex = None, depth = d\<rparr>"

text \<open>\<open>err.response?.status || 'Erro'\<close>: a status of 0 is falsy.\<close>

definition err_status :: "nat option \<Rightarrow> status" where
  "err_status r = (case r of None \<Rightarrow> Erro | Some n \<Rightarrow> if n = 0 then Erro else Code n)"

text \<open>Lines 32 to 34: the \<open>href\<close> of every \<open>a[href]\<close> element; cheerio's \<open>map\<close> leaves
  out an undefined value.\<close>

definition hrefs :: "dom \<Rightarrow> string list" where
  "hrefs S = List.map_filter (\<lambda>e. map_of (el_attrs e) ''href'') (S ''a[href]'')"

text \<open>Line 35.\<close>

definition href_kept :: "string \<Rightarrow> bool" where
  "href_kept h = (h \<noteq> [] \<and> \<not> startsWith h ''#'' \<and> \<not> startsWith h ''mailto:''
                   \<and> \<not> startsWith h ''tel:'')"

text \<open>Lines 36 to 38: a root-relative href is resolved against \<open>startUrl\<close>, any other is
  kept as it is.\<close>

definition resolve :: "world \<Rightarrow> string \<Rightarrow> string \<Rightarrow> string option" where
  "resolve W startUrl h = (if startsWith h ''/'' then url_href W h startUrl else Some h)"

text \<open>Line 39: \<open>new URL(href)\<close> throws on a string that is not an absolute URL, and the
  exception leaves the whole \<open>filter\<close>.\<close>

fun same_host :: "world \<Rightarrow> string \<Rightarrow> string list \<Rightarrow> string list option" where
  "same_host W baseDomain [] = Some []"
| "same_host W baseDomain (h # hs) =
     (case url_hostname W h of
        None \<Rightarrow> None
      | Some x \<Rightarrow>
          (case same_host W baseDomain hs of
             None \<Rightarrow> None
           | Some r \<Rightarrow> Some (if x = baseDomain then h # r else r)))"

text \<open>Lines 32 to 39: \<open>links\<close>, or \<open>None\<close> when one of the two \<open>new URL\<close> throws.\<close>

definition page_links :: "world \<Rightarrow> string \<Rightarrow> string \<Rightarrow> dom \<Rightarrow> string list option" where
  "page_links W startUrl baseDomain S =
     (case those (map (resolve W startUrl) (filter href_kept (hrefs S))) of
        None \<Rightarrow> None
      | Some rs \<Rightarrow> same_host W baseDomain rs)"

text \<open>Lines 41 to 45.\<close>

definition enqueue :: "string set \<Rightarrow> nat \<Rightarrow> string list \<Rightarrow> frontier_item list" where
  "enqueue vis d links =
     map (\<lambda>l. \<lparr>item_url = l, item_depth = d + 1\<rparr>) (filter (\<lambda>l. l \<notin> vis) links)"

subsection \<open>The loop\<close>

text \<open>
  The state of the loop is the module state and the local \<open>report\<close>. \<open>visit\<close> is lines 18
  to 48 for the item \<open>{ url: u, depth: d }\<close>, \<open>st\<close> being the state after \<open>queue.shift()\<close>.
\<close>

definition visit ::
  "world \<Rightarrow> string \<Rightarrow> string \<Rightarrow> string \<Rightarrow> nat \<Rightarrow> crawler_state \<times> page_record list
     \<Rightarrow> crawler_state \<times> page_record list" where
  "visit W startUrl baseDomain u d sr =
     (let st = (fst sr)\<lparr>visited := insert u (visited (fst sr)),
                        requests := requests (fst sr) @ [u]\<rparr>;
          rep = snd sr
      in case axios_get W u of
           Rejected r \<Rightarrow> (st, rep @ [error_record u (err_status r) d])
         | Resolved code body \<Rightarrow>
             (case cheerio_load W body of
                None \<Rightarrow> (st, rep @ [error_record u Erro d])
              | Some S \<Rightarrow>
                  (case page_links W startUrl baseDomain S of
                     None \<Rightarrow> (st, rep @ [ok_record S u code d, error_record u Erro d])
                   | Some links \<Rightarrow>
                       (st\<lparr>queue := queue st @ enqueue (visited st) d links\<rparr>,
                        rep @ [ok_record S u code d]))))"

text \<open>One iteration of the \<open>while\<close> loop (lines 15 to 48). It is only run on a queue that
  is not empty.\<close>

definition step ::
  "world \<Rightarrow> string \<Rightarrow> string \<Rightarrow> nat \<Rightarrow> crawler_state \<times> page_record list
     \<Rightarrow> crawler_state \<times> page_record list" where
  "step W startUrl baseDomain maxDepth sr =
     (case queue (fst sr) of
        [] \<Rightarrow> sr
      | q # rest \<Rightarrow>
          (if item_url q \<in> visited (fst sr) \<or> item_depth q > maxDepth
           then ((fst sr)\<lparr>queue := rest\<rparr>, snd sr)
           else visit W startUrl baseDomain (item_url q) (item_depth q)
                  ((fst sr)\<lparr>queue := rest\<rparr>, snd sr)))"

subsection \<open>Termination of the loop\<close>

text \<open>
  The links a page would put on the queue if nothing had been visited, and the size of the
  tree of items that an item with \<open>k\<close> levels left below it can give rise to.
\<close>

definition children :: "world \<Rightarrow> string \<Rightarrow> string \<Rightarrow> string \<Rightarrow> string list" where
  "children W startUrl baseDomain u =
     (case axios_get W u of
        Rejected r \<Rightarrow> []
      | Resolved code body \<Rightarrow>
          (case cheerio_load W body of
             None \<Rightarrow> []
           | Some S \<Rightarrow>
               (case page_links W startUrl baseDomain S of None \<Rightarrow> [] | Some links \<Rightarrow> links)))"

fun weight :: "world \<Rightarrow> string \<Rightarrow> string \<Rightarrow> nat \<Rightarrow> string \<Rightarrow> nat" where
  "weight W startUrl baseDomain 0 u = 1"
| "weight W startUrl baseDomain (Suc k) u =
     Suc (sum_list (map (weight W startUrl baseDomain k) (children W startUrl baseDomain u)))"

definition item_weight :: "world \<Rightarrow> string \<Rightarrow> string \<Rightarrow> nat \<Rightarrow> frontier_item \<Rightarrow> nat" where
  "item_weight W startUrl baseDomain maxDepth q =
     weight W startUrl baseDomain (Suc maxDepth - item_depth q) (item_url q)"

definition queue_weight ::
  "world \<Rightarrow> string \<Rightarrow> string \<Rightarrow> nat \<Rightarrow> crawler_state \<times> page_record list \<Rightarrow> nat" where
  "queue_weight W startUrl baseDomain maxDepth sr =
     sum_list (map (item_weight W startUrl baseDomain maxDepth) (queue (fst sr)))"

lemma weight_pos: "0 < weight W startUrl baseDomain k u"
  by (cases k) simp_all

lemma sum_list_filter_le:
  fixes f :: "'a \<Rightarrow> nat"
  shows "sum_list (map f (filter P xs)) \<le> sum_list (map f xs)"
  by (induction xs) auto

lemma queue_visit:
  "queue (fst (visit W startUrl baseDomain u d sr)) = queue (fst sr) \<or>
   (\<exists>links. children W startUrl baseDomain u = links \<and>
      queue (fst (visit W startUrl baseDomain u d sr)) =
        queue (fst sr) @ enqueue (insert u (visited (fst sr))) d links)"
  by (simp add: visit_def children_def Let_def split: response.split option.split)

lemma enqueue_weight:
  assumes "d \<le> maxDepth"
  shows "sum_list (map (item_weight W startUrl baseDomain maxDepth) (enqueue vis d links))
           \<le> sum_list (map (weight W startUrl baseDomain (maxDepth - d)) links)"
proof -
  have "map (item_weight W startUrl baseDomain maxDepth) (enqueue vis d links)
          = map (weight W startUrl baseDomain (maxDepth - d)) (filter (\<lambda>l. l \<notin> vis) links)"
    by (simp add: enqueue_def item_weight_def comp_def)
  then show ?thesis
    by (simp add: sum_list_filter_le)
qed

lemma step_decreases:
  assumes "queue (fst sr) \<noteq> []"
  shows "queue_weight W startUrl baseDomain maxDepth (step W startUrl baseDomain maxDepth sr)
           < queue_weight W startUrl baseDomain maxDepth sr"
proof -
  from assms obtain q rest where q: "queue (fst sr) = q # rest"
    by (cases "queue (fst sr)") auto
  let ?iw = "item_weight W startUrl baseDomain maxDepth"
  have pos: "0 < ?iw q"
    by (simp add: item_weight_def weight_pos)
  show ?thesis
  proof (cases "item_url q \<in> visited (fst sr) \<or> item_depth q > maxDepth")
    case True
    then show ?thesis
      using q pos by (simp add: step_def queue_weight_def)
  next
    case False
    then have d: "item_depth q \<le> maxDepth" by simp
    let ?sr = "((fst sr)\<lparr>queue := rest\<rparr>, snd sr)"
    have st: "step W startUrl baseDomain maxDepth sr
                = visit W startUrl baseDomain (item_url q) (item_depth q) ?sr"
      using q False by (simp add: step_def)
    have w: "?iw q = Suc (sum_list (map (weight W startUrl baseDomain (maxDepth - item_depth q))
                                      (children W startUrl baseDomain (item_url q))))"
      using d by (simp add: item_weight_def Suc_diff_le)
    from queue_visit [of W startUrl baseDomain "item_url q" "item_depth q" ?sr]
    show ?thesis
    proof
      assume "queue (fst (visit W startUrl baseDomain (item_url q) (item_depth q) ?sr))
                = queue (fst ?sr)"
      then show ?thesis
        using q pos st by (simp add: queue_weight_def)
    next
      assume "\<exists>links. children W startUrl baseDomain (item_url q) = links \<and>
                queue (fst (visit W startUrl baseDomain (item_url q) (item_depth q) ?sr)) =
                  queue (fst ?sr) @ enqueue (insert (item_url q) (visited (fst ?sr)))
                                      (item_depth q) links"
      then have "queue_weight W startUrl baseDomain maxDepth
                   (visit W startUrl baseDomain (item_url q) (item_depth q) ?sr)
                 = sum_list (map ?iw rest)
                   + sum_list (map ?iw (enqueue (insert (item_url q) (visited (fst ?sr)))
                        (item_depth q) (children W startUrl baseDomain (item_url q))))"
        by (auto simp: queue_weight_def)
      also have "\<dots> \<le> sum_list (map ?iw rest)
                   + sum_list (map (weight W startUrl baseDomain (maxDepth - item_depth q))
                               (children W startUrl baseDomain (item_url q)))"
        using enqueue_weight [OF d] by simp
      also have "\<dots> < queue_weight W startUrl baseDomain maxDepth sr"
        using q w by (simp add: queue_weight_def)
      finally show ?thesis
        using st by simp
    qed
  qed
qed

text \<open>Lines 14 to 49: \<open>while (queue.length > 0)\<close>.\<close>

function crawl_loop ::
  "world \<Rightarrow> string \<Rightarrow> string \<Rightarrow> nat \<Rightarrow> crawler_state \<times> page_record list
     \<Rightarrow> crawler_state \<times> page_record list" where
  "crawl_loop W startUrl baseDomain maxDepth sr =
     (if queue (fst sr) = [] then sr
      else crawl_loop W startUrl baseDomain maxDepth (step W startUrl baseDomain maxDepth sr))"
  by pat_completeness auto
termination
  by (relation "measure (\<lambda>(W, startUrl, baseDomain, maxDepth, sr).
                   queue_weight W startUrl baseDomain maxDepth sr)")
     (simp_all add: step_decreases)

declare crawl_loop.simps [simp del]

text \<open>
  \<open>crawlSite(startUrl, maxDepth)\<close> (lines 8 to 52), from the module state \<open>st\<close>: the
  value returned or the exception thrown, and the module state afterwards. Line 9 pushes
  the seed before line 12 parses \<open>startUrl\<close>. \<open>maxDepth\<close> is a natural number; a caller
  that leaves it out passes the default, 3.
\<close>

definition crawlSite ::
  "world \<Rightarrow> crawler_state \<Rightarrow> string \<Rightarrow> nat \<Rightarrow> (error + page_record list) \<times> crawler_state" where
  "crawlSite W st startUrl maxDepth =
     (let st1 = st\<lparr>queue := queue st @ [\<lparr>item_url = startUrl, item_depth = 0\<rparr>]\<rparr>
      in case url_hostname W startUrl of
           None \<Rightarrow> (Inl TypeError, st1)
         | Some baseDomain \<Rightarrow>
             (case crawl_loop W startUrl baseDomain maxDepth (st1, []) of
                (st2, report) \<Rightarrow> (Inr report, st2)))"

subsection \<open>Notions used to state the properties\<close>

text \<open>The entries one visit appends to \<open>report\<close>: line 30, line 47, or both.\<close>

definition visit_records :: "world \<Rightarrow> string \<Rightarrow> string \<Rightarrow> string \<Rightarrow> nat \<Rightarrow> page_record list" where
  "visit_records W startUrl baseDomain u d =
     (case axios_get W u of
        Rejected r \<Rightarrow> [error_record u (err_status r) d]
      | Resolved code body \<Rightarrow>
          (case cheerio_load W body of
             None \<Rightarrow> [error_record u Erro d]
           | Some S \<Rightarrow>
               (case page_links W startUrl baseDomain S of
                  None \<Rightarrow> [ok_record S u code d, error_record u Erro d]
                | Some links \<Rightarrow> [ok_record S u code d])))"

text \<open>
  \<open>link_path W startUrl baseDomain n u\<close>: \<open>u\<close> is reached from the seed by following
  \<open>n\<close> links, a link of a page being an href of it that line 35 keeps, resolved as in
  lines 36 to 38, whose hostname is that of the seed.
\<close>

inductive link_path :: "world \<Rightarrow> string \<Rightarrow> string \<Rightarrow> nat \<Rightarrow> string \<Rightarrow> bool"
  for W :: world and startUrl :: string and baseDomain :: string where
  seed: "link_path W startUrl baseDomain 0 startUrl"
| link: "link_path W startUrl baseDomain n v \<Longrightarrow>
         axios_get W v = Resolved code body \<Longrightarrow>
         cheerio_load W body = Some S \<Longrightarrow>
         h \<in> set (hrefs S) \<Longrightarrow> href_kept h \<Longrightarrow>
         resolve W startUrl h = Some l \<Longrightarrow>
         url_hostname W l = Some baseDomain \<Longrightarrow>
         link_path W startUrl baseDomain (Suc n) l"

text \<open>The module state when the module is loaded.\<close>

definition fresh :: crawler_state where
  "fresh = \<lparr>visited = {}, queue = [], requests = []\<rparr>"

subsection \<open>Calls that overlap\<close>

text \<open>
  \<open>crawlSite\<close> is an \<open>async\<close> function, and \<open>visited\<close> and \<open>queue\<close> are shared by all
  its calls. A call runs without interruption from its start to the \<open>await\<close> of line 20,
  and from the answer to a request to the next \<open>await\<close> or to the \<open>return\<close> of line 51.
  While it waits for an answer, other calls can start and go on: the server of the
  repository calls \<open>crawlSite\<close> in the handler of a POST route, and handles the next
  request while the first one waits.

  A call in flight has its own \<open>startUrl\<close>, \<open>baseDomain\<close>, \<open>maxDepth\<close> and \<open>report\<close>.
\<close>

record call =
  call_startUrl :: string
  call_baseDomain :: string
  call_maxDepth :: nat
  call_report :: "page_record list"

text \<open>
  The process: the module state, the calls that wait for the answer to a request, each with
  the item \<open>{ url, depth }\<close> it is visiting, and the calls that ended, in the order in which
  they ended, with the report they returned or the exception they threw.
\<close>

record system =
  shared :: crawler_state
  inflight :: "(call \<times> frontier_item) list"
  outcomes :: "(string \<times> nat \<times> (error + page_record list)) list"

text \<open>The process when the module is loaded.\<close>

definition initial :: system where
  "initial = \<lparr>shared = fresh, inflight = [], outcomes = []\<rparr>"

text \<open>
  Lines 14 to 16, repeated: the loop shifts the items that are visited or too deep, up to
  the first item that it visits; \<open>None\<close> when the queue runs empty before that.
\<close>

fun shift_until ::
  "string set \<Rightarrow> nat \<Rightarrow> frontier_item list \<Rightarrow> (frontier_item \<times> frontier_item list) option" where
  "shift_until vis maxDepth [] = None"
| "shift_until vis maxDepth (q # rest) =
     (if item_url q \<in> vis \<or> item_depth q > maxDepth then shift_until vis maxDepth rest
      else Some (q, rest))"

text \<open>
  Lines 21 to 48, run when the request for \<open>u\<close> is answered: what \<open>visit\<close> does after
  lines 18 and 20. \<open>visited.has(link)\<close> on line 42 reads the set as it is at that time.
\<close>

definition handle_response ::
  "world \<Rightarrow> string \<Rightarrow> string \<Rightarrow> string \<Rightarrow> nat \<Rightarrow> crawler_state \<times> page_record list
     \<Rightarrow> crawler_state \<times> page_record list" where
  "handle_response W startUrl baseDomain u d sr =
     (let st = fst sr; rep = snd sr
      in case axios_get W u of
           Rejected r \<Rightarrow> (st, rep @ [error_record u (err_status r) d])
         | Resolved code body \<Rightarrow>
             (case cheerio_load W body of
                None \<Rightarrow> (st, rep @ [error_record u Erro d])
              | Some S \<Rightarrow>
                  (case page_links W startUrl baseDomain S of
                     None \<Rightarrow> (st, rep @ [ok_record S u code d, error_record u Erro d])
                   | Some links \<Rightarrow>
                       (st\<lparr>queue := queue st @ enqueue (visited st) d links\<rparr>,
                        rep @ [ok_record S u code d]))))"

text \<open>
  The loop, from line 14 to the next \<open>await\<close>: the call marks the item visited and sends
  the request (lines 18 and 20), and is in flight; or the queue is empty and the call
  returns its report (line 51).
\<close>

definition proceed :: "call \<Rightarrow> system \<Rightarrow> system" where
  "proceed c sys =
     (case shift_until (visited (shared sys)) (call_maxDepth c) (queue (shared sys)) of
        None \<Rightarrow>
          sys\<lparr>shared := (shared sys)\<lparr>queue := []\<rparr>,
              outcomes := outcomes sys @ [(call_startUrl c, call_maxDepth c, Inr (call_report c))]\<rparr>
      | Some (q, rest) \<Rightarrow>
          sys\<lparr>shared := (shared sys)\<lparr>queue := rest,
                                       visited := insert (item_url q) (visited (shared sys)),
                                       requests := requests (shared sys) @ [item_url q]\<rparr>,
              inflight := inflight sys @ [(c, q)]\<rparr>)"

text \<open>A call starts: lines 9 to 12, then the loop up to the first \<open>await\<close>.\<close>

definition start_call :: "world \<Rightarrow> string \<Rightarrow> nat \<Rightarrow> system \<Rightarrow> system" where
  "start_call W startUrl maxDepth sys =
     (let st1 = (shared sys)\<lparr>queue := queue (shared sys) @ [\<lparr>item_url = startUrl, item_depth = 0\<rparr>]\<rparr>
      in case url_hostname W startUrl of
           None \<Rightarrow> sys\<lparr>shared := st1,
                        outcomes := outcomes sys @ [(startUrl, maxDepth, Inl TypeError)]\<rparr>
         | Some baseDomain \<Rightarrow>
             proceed \<lparr>call_startUrl = startUrl, call_baseDomain = baseDomain,
                      call_maxDepth = maxDepth, call_report = []\<rparr>
                     (sys\<lparr>shared := st1\<rparr>))"

text \<open>The request of the call at position \<open>i\<close> among the calls in flight is answered: the
  call goes on, up to its next \<open>await\<close> or to its end.\<close>

definition resume_call :: "world \<Rightarrow> nat \<Rightarrow> system \<Rightarrow> system" where
  "resume_call W i sys =
     (if i < length (inflight sys)
      then (case inflight sys ! i of
              (c, q) \<Rightarrow>
                (case handle_response W (call_startUrl c) (call_baseDomain c)
                        (item_url q) (item_depth q) (shared sys, call_report c) of
                   (st, rep) \<Rightarrow>
                     proceed (c\<lparr>call_report := rep\<rparr>)
                       (sys\<lparr>shared := st,
                            inflight := take i (inflight sys) @ drop (Suc i) (inflight sys)\<rparr>)))
      else sys)"

text \<open>A run of the process: calls start and requests are answered, in any order.\<close>

datatype event = Start string nat | Resume nat

fun apply_event :: "world \<Rightarrow> event \<Rightarrow> system \<Rightarrow> system" where
  "apply_event W (Start startUrl maxDepth) sys = start_call W startUrl maxDepth sys"
| "apply_event W (Resume i) sys = resume_call W i sys"

primrec run :: "world \<Rightarrow> event list \<Rightarrow> system \<Rightarrow> system" where
  "run W [] sys = sys"
| "run W (e # es) sys = run W es (apply_event W e sys)"

subsection \<open>An example site\<close>

text \<open>
  A site of three pages, for the concrete instances below. The home page
  \<open>https://example.test/\<close> answers 200; its document has the \<open>title\<close> elements with
  the texts \<open>ts\<close> (ASCII, one code unit for each character) and the \<open>a\<close> elements
  with the hrefs \<open>hs\<close>. The page \<open>/contact\<close> answers 200 and has no link; \<open>/about\<close>
  answers 404; any other request fails without a response. The URL class parses the three
  URLs of the site and \<open>https://other.test/page\<close>, and throws on anything else, as it
  does on a string with no scheme such as \<open>about.html\<close> or \<open>example.test\<close>.
\<close>

definition page_dom :: "string list \<Rightarrow> string list \<Rightarrow> dom" where
  "page_dom ts hs sel =
     (if sel = ''title'' then map (\<lambda>t. \<lparr>el_attrs = [], el_text = map of_char t\<rparr>) ts
      else if sel = ''a[href]'' then map (\<lambda>h. \<lparr>el_attrs = [(''href'', h)], el_text = []\<rparr>) hs
      else [])"

definition site :: "string list \<Rightarrow> string list \<Rightarrow> world" where
  "site ts hs =
     \<lparr>axios_get = (\<lambda>u. if u = ''https://example.test/'' then Resolved 200 ''home page''
                       else if u = ''https://example.test/contact'' then Resolved 200 ''contact page''
                       else if u = ''https://example.test/about'' then Rejected (Some 404)
                       else Rejected None),
      cheerio_load = (\<lambda>b. if b = ''home page'' then Some (page_dom ts hs)
                          else Some (page_dom [''Contact''] [])),
      url_hostname = (\<lambda>u. if u = ''https://example.test/'' \<or> u = ''https://example.test/about''
                                \<or> u = ''https://example.test/contact''
                             then Some ''example.test''
                             else if u = ''https://other.test/page'' then Some ''other.test''
                             else None),
      url_href = (\<lambda>h b. if b = ''https://example.test/'' \<and> h = ''/about''
                            then Some ''https://example.test/about''
                          else if b = ''https://example.test/'' \<and> h = ''/contact''
                            then Some ''https://example.test/contact''
                          else None)\<rparr>"

text \<open>
  The same site with a fourth page, \<open>/blog\<close>, whose only link is \<open>/\<close>, and a home page
  with the links \<open>/about\<close> and \<open>/contact\<close>: the contact page is two links away from the
  blog page.
\<close>

definition blog_site :: world where
  "blog_site =
     \<lparr>axios_get = (\<lambda>u. if u = ''https://example.test/'' then Resolved 200 ''home page''
                       else if u = ''https://example.test/contact'' then Resolved 200 ''contact page''
                       else if u = ''https://example.test/blog'' then Resolved 200 ''blog page''
                       else if u = ''https://example.test/about'' then Rejected (Some 404)
                       else Rejected None),
      cheerio_load = (\<lambda>b. if b = ''home page'' then Some (page_dom [''Home''] [''/about'', ''/contact''])
                          else if b = ''blog page'' then Some (page_dom [''Blog''] [''/''])
                          else Some (page_dom [''Contact''] [])),
      url_hostname = (\<lambda>u. if u = ''https://example.test/'' \<or> u = ''https://example.test/about''
                                \<or> u = ''https://example.test/contact''
                                \<or> u = ''https://example.test/blog''
                             then Some ''example.test''
                             else None),
      url_href = (\<lambda>h b. if h = ''/'' then Some ''https://example.test/''
                          else if h = ''/about'' then Some ''https://example.test/about''
                          else if h = ''/contact'' then Some ''https://example.test/contact''
                          else None)\<rparr>"

text \<open>
  The same site again, behind an HTTP client that answers the request for the string
  \<open>example.test\<close>, which is not a URL, with the home page (a client that resolves such a
  string against a base of its own).
\<close>

definition local_site :: world where
  "local_site =
     blog_site\<lparr>axios_get := (\<lambda>u. if u = ''example.test'' then Resolved 200 ''home page''
                                   else axios_get blog_site u)\<rparr>"

subsection \<open>The loop, one iteration at a time\<close>

lemma crawl_loop_invariant:
  assumes "P sr"
    and "\<And>x. P x \<Longrightarrow> queue (fst x) \<noteq> [] \<Longrightarrow> P (step W startUrl baseDomain maxDepth x)"
  shows "P (crawl_loop W startUrl baseDomain maxDepth sr)"
  using assms(1)
proof (induction "queue_weight W startUrl baseDomain maxDepth sr" arbitrary: sr rule: less_induct)
  case less
  show ?case
  proof (cases "queue (fst sr) = []")
    case True
    then show ?thesis using less.prems by (simp add: crawl_loop.simps [of _ _ _ _ sr])
  next
    case False
    have "P (crawl_loop W startUrl baseDomain maxDepth (step W startUrl baseDomain maxDepth sr))"
      using less.hyps [OF step_decreases [OF False]] assms(2) [OF less.prems False] by simp
    then show ?thesis
      using False by (simp add: crawl_loop.simps [of _ _ _ _ sr])
  qed
qed

lemma crawl_loop_queue: "queue (fst (crawl_loop W startUrl baseDomain maxDepth sr)) = []"
proof (induction "queue_weight W startUrl baseDomain maxDepth sr" arbitrary: sr rule: less_induct)
  case less
  show ?case
  proof (cases "queue (fst sr) = []")
    case True
    then show ?thesis by (simp add: crawl_loop.simps [of _ _ _ _ sr])
  next
    case False
    then show ?thesis
      using less.hyps [OF step_decreases [OF False]] by (simp add: crawl_loop.simps [of _ _ _ _ sr])
  qed
qed

lemma crawl_loop_done:
  "queue (fst sr) = [] \<Longrightarrow> crawl_loop W startUrl baseDomain maxDepth sr = sr"
  by (simp add: crawl_loop.simps [of _ _ _ _ sr])

lemma crawl_loop_step:
  "queue (fst sr) \<noteq> [] \<Longrightarrow>
     crawl_loop W startUrl baseDomain maxDepth sr =
       crawl_loop W startUrl baseDomain maxDepth (step W startUrl baseDomain maxDepth sr)"
  by (simp add: crawl_loop.simps [of _ _ _ _ sr])

lemma visit_eq:
  "visit W startUrl baseDomain u d sr =
     ((fst sr)\<lparr>visited := insert u (visited (fst sr)),
               requests := requests (fst sr) @ [u],
               queue := queue (fst sr)
                          @ enqueue (insert u (visited (fst sr))) d (children W startUrl baseDomain u)\<rparr>,
      snd sr @ visit_records W startUrl baseDomain u d)"
  by (simp add: visit_def visit_records_def children_def enqueue_def Let_def
           split: response.split option.split)

lemma step_eq:
  assumes "queue (fst sr) = q # rest"
  shows "step W startUrl baseDomain maxDepth sr =
     (if item_url q \<in> visited (fst sr) \<or> maxDepth < item_depth q
      then ((fst sr)\<lparr>queue := rest\<rparr>, snd sr)
      else ((fst sr)\<lparr>visited := insert (item_url q) (visited (fst sr)),
                     requests := requests (fst sr) @ [item_url q],
                     queue := rest @ enqueue (insert (item_url q) (visited (fst sr))) (item_depth q)
                                       (children W startUrl baseDomain (item_url q))\<rparr>,
            snd sr @ visit_records W startUrl baseDomain (item_url q) (item_depth q)))"
  using assms by (simp add: step_def visit_eq)

lemma crawlSite_Inr:
  assumes "crawlSite W st startUrl maxDepth = (Inr report, st')"
  obtains baseDomain where "url_hostname W startUrl = Some baseDomain"
    and "crawl_loop W startUrl baseDomain maxDepth
           (st\<lparr>queue := queue st @ [\<lparr>item_url = startUrl, item_depth = 0\<rparr>]\<rparr>, []) = (st', report)"
proof (cases "url_hostname W startUrl")
  case None
  with assms show ?thesis by (simp add: crawlSite_def Let_def)
next
  case (Some baseDomain)
  with assms have "crawl_loop W startUrl baseDomain maxDepth
           (st\<lparr>queue := queue st @ [\<lparr>item_url = startUrl, item_depth = 0\<rparr>]\<rparr>, []) = (st', report)"
    by (simp add: crawlSite_def Let_def split: prod.splits)
  with Some that show ?thesis by blast
qed

text \<open>The loop always ends, so a call with a \<open>startUrl\<close> that parses returns a report.\<close>

lemma crawlSite_returns:
  assumes "url_hostname W startUrl = Some baseDomain"
  shows "\<exists>report st'. crawlSite W st startUrl maxDepth = (Inr report, st')"
  using assms by (simp add: crawlSite_def Let_def split: prod.split)

subsection \<open>Links and entries of one visit\<close>

lemma same_host_sound:
  "same_host W baseDomain hs = Some r \<Longrightarrow>
     l \<in> set r \<Longrightarrow> l \<in> set hs \<and> url_hostname W l = Some baseDomain"
  by (induction hs arbitrary: r) (auto split: option.splits if_splits)

lemma those_map_sound:
  "those (map f xs) = Some ys \<Longrightarrow> y \<in> set ys \<Longrightarrow> \<exists>x \<in> set xs. f x = Some y"
  by (induction xs arbitrary: ys) (auto split: option.splits)

lemma page_links_sound:
  assumes "page_links W startUrl baseDomain S = Some links" and "l \<in> set links"
  shows "url_hostname W l = Some baseDomain \<and>
         (\<exists>h \<in> set (hrefs S). href_kept h \<and> resolve W startUrl h = Some l)"
proof -
  from assms(1) obtain rs where
    rs: "those (map (resolve W startUrl) (filter href_kept (hrefs S))) = Some rs"
    and sh: "same_host W baseDomain rs = Some links"
    by (auto simp: page_links_def split: option.splits)
  from same_host_sound [OF sh assms(2)] have "l \<in> set rs" and h: "url_hostname W l = Some baseDomain"
    by simp_all
  from those_map_sound [OF rs \<open>l \<in> set rs\<close>] h show ?thesis
    by auto
qed

lemma children_sound:
  assumes "l \<in> set (children W startUrl baseDomain u)"
  shows "url_hostname W l = Some baseDomain \<and>
         (\<exists>code body S h. axios_get W u = Resolved code body \<and> cheerio_load W body = Some S \<and>
            h \<in> set (hrefs S) \<and> href_kept h \<and> resolve W startUrl h = Some l)"
proof (cases "axios_get W u")
  case (Rejected r)
  with assms show ?thesis by (simp add: children_def)
next
  case (Resolved code body)
  show ?thesis
  proof (cases "cheerio_load W body")
    case None
    with assms Resolved show ?thesis by (simp add: children_def)
  next
    case (Some S)
    show ?thesis
    proof (cases "page_links W startUrl baseDomain S")
      case None
      with assms Resolved Some show ?thesis by (simp add: children_def)
    next
      case (Some links)
      with assms Resolved \<open>cheerio_load W body = Some S\<close> have "l \<in> set links"
        by (simp add: children_def)
      from page_links_sound [OF Some this] Resolved \<open>cheerio_load W body = Some S\<close>
      show ?thesis by blast
    qed
  qed
qed

lemma children_link_path:
  assumes "link_path W startUrl baseDomain n u" and "l \<in> set (children W startUrl baseDomain u)"
  shows "link_path W startUrl baseDomain (Suc n) l"
  using children_sound [OF assms(2)] assms(1) by (auto intro: link_path.link)

lemma visit_records_fields:
  "r \<in> set (visit_records W startUrl baseDomain u d) \<Longrightarrow> url r = u \<and> depth r = d"
  by (auto simp: visit_records_def ok_record_def error_record_def split: response.splits option.splits)

lemma enqueue_set:
  "q \<in> set (enqueue vis d links) \<Longrightarrow>
     item_depth q = Suc d \<and> item_url q \<in> set links \<and> item_url q \<notin> vis"
  by (auto simp: enqueue_def)

subsection \<open>Invariants of the loop\<close>

lemma queue_cases:
  assumes "queue (fst sr) \<noteq> []"
  obtains q rest where "queue (fst sr) = q # rest"
  using assms by (cases "queue (fst sr)") auto

text \<open>Every entry has a depth within the bound.\<close>

lemma step_depth_bound:
  assumes "\<forall>r \<in> set (snd sr). depth r \<le> maxDepth" and "queue (fst sr) \<noteq> []"
  shows "\<forall>r \<in> set (snd (step W startUrl baseDomain maxDepth sr)). depth r \<le> maxDepth"
proof -
  from assms(2) obtain q rest where q: "queue (fst sr) = q # rest"
    by (rule queue_cases)
  show ?thesis
    using assms(1) visit_records_fields [of _ W startUrl baseDomain "item_url q" "item_depth q"]
    by (auto simp: step_eq [OF q])
qed

lemma loop_depth_bound:
  assumes "\<forall>r \<in> set (snd sr). depth r \<le> maxDepth"
  shows "\<forall>r \<in> set (snd (crawl_loop W startUrl baseDomain maxDepth sr)). depth r \<le> maxDepth"
  using assms
  by (rule crawl_loop_invariant [where P = "\<lambda>x. \<forall>r \<in> set (snd x). depth r \<le> maxDepth"])
     (rule step_depth_bound)

text \<open>Every item and every entry is at the end of a path of links of its depth.\<close>

definition path_inv :: "world \<Rightarrow> string \<Rightarrow> string \<Rightarrow> crawler_state \<times> page_record list \<Rightarrow> bool" where
  "path_inv W startUrl baseDomain sr \<longleftrightarrow>
     (\<forall>q \<in> set (queue (fst sr)). link_path W startUrl baseDomain (item_depth q) (item_url q)) \<and>
     (\<forall>r \<in> set (snd sr). link_path W startUrl baseDomain (depth r) (url r))"

lemma step_path_inv:
  assumes "path_inv W startUrl baseDomain sr" and "queue (fst sr) \<noteq> []"
  shows "path_inv W startUrl baseDomain (step W startUrl baseDomain maxDepth sr)"
proof -
  from assms(2) obtain q rest where q: "queue (fst sr) = q # rest"
    by (rule queue_cases)
  from assms(1) q have pq: "link_path W startUrl baseDomain (item_depth q) (item_url q)"
    and prest: "\<forall>x \<in> set rest. link_path W startUrl baseDomain (item_depth x) (item_url x)"
    and prep: "\<forall>r \<in> set (snd sr). link_path W startUrl baseDomain (depth r) (url r)"
    by (simp_all add: path_inv_def)
  have new: "link_path W startUrl baseDomain (item_depth x) (item_url x)"
    if "x \<in> set (enqueue vis (item_depth q) (children W startUrl baseDomain (item_url q)))"
    for x vis
    using enqueue_set [OF that] children_link_path [OF pq] by simp
  have recs: "link_path W startUrl baseDomain (depth r) (url r)"
    if "r \<in> set (visit_records W startUrl baseDomain (item_url q) (item_depth q))" for r
    using visit_records_fields [OF that] pq by simp
  show ?thesis
    using prest prep new recs by (auto simp: step_eq [OF q] path_inv_def)
qed

lemma loop_path_inv:
  assumes "path_inv W startUrl baseDomain sr"
  shows "path_inv W startUrl baseDomain (crawl_loop W startUrl baseDomain maxDepth sr)"
  using assms
  by (rule crawl_loop_invariant [where P = "path_inv W startUrl baseDomain"])
     (rule step_path_inv)

text \<open>Every entry is one that a visit of its URL at its depth appends.\<close>

definition entries_inv :: "world \<Rightarrow> string \<Rightarrow> string \<Rightarrow> crawler_state \<times> page_record list \<Rightarrow> bool" where
  "entries_inv W startUrl baseDomain sr \<longleftrightarrow>
     (\<forall>r \<in> set (snd sr). r \<in> set (visit_records W startUrl baseDomain (url r) (depth r)))"

lemma step_entries_inv:
  assumes "entries_inv W startUrl baseDomain sr" and "queue (fst sr) \<noteq> []"
  shows "entries_inv W startUrl baseDomain (step W startUrl baseDomain maxDepth sr)"
proof -
  from assms(2) obtain q rest where q: "queue (fst sr) = q # rest"
    by (rule queue_cases)
  have "r \<in> set (visit_records W startUrl baseDomain (url r) (depth r))"
    if "r \<in> set (visit_records W startUrl baseDomain (item_url q) (item_depth q))" for r
    using visit_records_fields [OF that] that by simp
  then show ?thesis
    using assms(1) by (auto simp: step_eq [OF q] entries_inv_def)
qed

lemma loop_entries_inv:
  assumes "entries_inv W startUrl baseDomain sr"
  shows "entries_inv W startUrl baseDomain (crawl_loop W startUrl baseDomain maxDepth sr)"
  using assms
  by (rule crawl_loop_invariant [where P = "entries_inv W startUrl baseDomain"])
     (rule step_entries_inv)






text \<open>Breadth-first order: the entries are below some level, the queue is within that
  level and the next, and both are sorted by depth.\<close>

definition bfs_inv :: "crawler_state \<times> page_record list \<Rightarrow> bool" where
  "bfs_inv sr \<longleftrightarrow>
     sorted (map depth (snd sr)) \<and> sorted (map item_depth (queue (fst sr))) \<and>
     (\<exists>lo. (\<forall>r \<in> set (snd sr). depth r \<le> lo) \<and>
           (\<forall>q \<in> set (queue (fst sr)). lo \<le> item_depth q \<and> item_depth q \<le> Suc lo))"

lemma sorted_append_level:
  fixes f :: "'a \<Rightarrow> nat"
  assumes "sorted (map f xs)" and "\<forall>x \<in> set xs. f x \<le> c" and "\<forall>y \<in> set ys. f y = c"
  shows "sorted (map f (xs @ ys))"
proof -
  have "sorted (map f ys)"
    using assms(3) by (induction ys) auto
  with assms show ?thesis
    by (auto simp: sorted_append)
qed

lemma step_bfs_inv:
  assumes "bfs_inv sr" and "queue (fst sr) \<noteq> []"
  shows "bfs_inv (step W startUrl baseDomain maxDepth sr)"
proof -
  from assms(2) obtain q rest where q: "queue (fst sr) = q # rest"
    by (rule queue_cases)
  from assms(1) obtain lo where
    srep: "sorted (map depth (snd sr))" and
    sq: "sorted (map item_depth (q # rest))" and
    lrep: "\<forall>r \<in> set (snd sr). depth r \<le> lo" and
    lq: "\<forall>x \<in> set (q # rest). lo \<le> item_depth x \<and> item_depth x \<le> Suc lo"
    unfolding bfs_inv_def q by blast
  let ?d = "item_depth q"
  from lq have lod: "lo \<le> ?d" and dlo: "?d \<le> Suc lo" by simp_all
  from sq have srest: "sorted (map item_depth rest)"
    and rest_lo: "\<forall>x \<in> set rest. ?d \<le> item_depth x" by simp_all
  from lq dlo lod have rest_hi: "\<forall>x \<in> set rest. item_depth x \<le> Suc ?d" by auto
  from lrep lod have rep_d: "\<forall>r \<in> set (snd sr). depth r \<le> ?d" by auto
  show ?thesis
  proof (cases "item_url q \<in> visited (fst sr) \<or> maxDepth < ?d")
    case True
    then have "step W startUrl baseDomain maxDepth sr = ((fst sr)\<lparr>queue := rest\<rparr>, snd sr)"
      by (simp add: step_eq [OF q])
    moreover have "\<forall>x \<in> set rest. ?d \<le> item_depth x \<and> item_depth x \<le> Suc ?d"
      using rest_lo rest_hi by simp
    ultimately show ?thesis
      unfolding bfs_inv_def using srep srest rep_d by auto
  next
    case False
    let ?recs = "visit_records W startUrl baseDomain (item_url q) ?d"
    let ?new = "enqueue (insert (item_url q) (visited (fst sr))) ?d
                  (children W startUrl baseDomain (item_url q))"
    from False have st: "step W startUrl baseDomain maxDepth sr =
        ((fst sr)\<lparr>visited := insert (item_url q) (visited (fst sr)),
                     requests := requests (fst sr) @ [item_url q],
                     queue := rest @ ?new\<rparr>,
         snd sr @ ?recs)"
      by (simp add: step_eq [OF q])
    have recs: "\<forall>r \<in> set ?recs. depth r = ?d"
      using visit_records_fields by blast
    have new: "\<forall>x \<in> set ?new. item_depth x = Suc ?d"
      using enqueue_set by blast
    have a: "sorted (map depth (snd sr @ ?recs))"
      using srep rep_d recs by (rule sorted_append_level)
    have b: "sorted (map item_depth (rest @ ?new))"
      using srest rest_hi new by (rule sorted_append_level)
    have c: "\<forall>r \<in> set (snd sr @ ?recs). depth r \<le> ?d"
      using rep_d recs by auto
    have d: "\<forall>x \<in> set (rest @ ?new). ?d \<le> item_depth x \<and> item_depth x \<le> Suc ?d"
      using rest_lo rest_hi new by auto
    show ?thesis
      unfolding st bfs_inv_def using a b c d by auto
  qed
qed

lemma loop_bfs_inv:
  assumes "bfs_inv sr"
  shows "bfs_inv (crawl_loop W startUrl baseDomain maxDepth sr)"
  using assms
  by (rule crawl_loop_invariant [where P = bfs_inv]) (rule step_bfs_inv)

text \<open>Hostnames: an item or an entry whose URL has a hostname has that of the seed.\<close>

definition host_ok :: "world \<Rightarrow> string \<Rightarrow> string \<Rightarrow> bool" where
  "host_ok W baseDomain u \<longleftrightarrow> (\<forall>h. url_hostname W u = Some h \<longrightarrow> h = baseDomain)"

definition host_inv :: "world \<Rightarrow> string \<Rightarrow> crawler_state \<times> page_record list \<Rightarrow> bool" where
  "host_inv W baseDomain sr \<longleftrightarrow>
     (\<forall>q \<in> set (queue (fst sr)). host_ok W baseDomain (item_url q)) \<and>
     (\<forall>r \<in> set (snd sr). host_ok W baseDomain (url r))"

lemma step_host_inv:
  assumes "host_inv W baseDomain sr" and "queue (fst sr) \<noteq> []"
  shows "host_inv W baseDomain (step W startUrl baseDomain maxDepth sr)"
proof -
  from assms(2) obtain q rest where q: "queue (fst sr) = q # rest"
    by (rule queue_cases)
  from assms(1) q have hq: "host_ok W baseDomain (item_url q)"
    and hrest: "\<forall>x \<in> set rest. host_ok W baseDomain (item_url x)"
    and hrep: "\<forall>r \<in> set (snd sr). host_ok W baseDomain (url r)"
    by (simp_all add: host_inv_def)
  show ?thesis
  proof (cases "item_url q \<in> visited (fst sr) \<or> maxDepth < item_depth q")
    case True
    then have "step W startUrl baseDomain maxDepth sr = ((fst sr)\<lparr>queue := rest\<rparr>, snd sr)"
      by (simp add: step_eq [OF q])
    then show ?thesis
      using hrest hrep by (simp add: host_inv_def)
  next
    case False
    let ?recs = "visit_records W startUrl baseDomain (item_url q) (item_depth q)"
    let ?new = "enqueue (insert (item_url q) (visited (fst sr))) (item_depth q)
                  (children W startUrl baseDomain (item_url q))"
    from False have st: "step W startUrl baseDomain maxDepth sr =
        ((fst sr)\<lparr>visited := insert (item_url q) (visited (fst sr)),
                     requests := requests (fst sr) @ [item_url q],
                     queue := rest @ ?new\<rparr>,
         snd sr @ ?recs)"
      by (simp add: step_eq [OF q])
    have new: "\<forall>x \<in> set ?new. host_ok W baseDomain (item_url x)"
    proof
      fix x assume "x \<in> set ?new"
      from enqueue_set [OF this]
      have "item_url x \<in> set (children W startUrl baseDomain (item_url q))" by simp
      from children_sound [OF this] show "host_ok W baseDomain (item_url x)"
        by (simp add: host_ok_def)
    qed
    have recs: "\<forall>r \<in> set ?recs. host_ok W baseDomain (url r)"
    proof
      fix r assume "r \<in> set ?recs"
      from visit_records_fields [OF this] hq show "host_ok W baseDomain (url r)" by simp
    qed
    have a: "\<forall>x \<in> set (rest @ ?new). host_ok W baseDomain (item_url x)"
      using hrest new by auto
    have b: "\<forall>r \<in> set (snd sr @ ?recs). host_ok W baseDomain (url r)"
      using hrep recs by auto
    show ?thesis
      unfolding st host_inv_def using a b by simp
  qed
qed

lemma loop_host_inv:
  assumes "host_inv W baseDomain sr"
  shows "host_inv W baseDomain (crawl_loop W startUrl baseDomain maxDepth sr)"
  using assms
  by (rule crawl_loop_invariant [where P = "host_inv W baseDomain"]) (rule step_host_inv)




text \<open>Between calls the queue holds nothing but the seeds of calls that threw.\<close>

lemma crawlSite_queue:
  "queue (snd (crawlSite W st startUrl maxDepth)) =
     (case url_hostname W startUrl of
        None \<Rightarrow> queue st @ [\<lparr>item_url = startUrl, item_depth = 0\<rparr>]
      | Some b \<Rightarrow> [])"
proof (cases "url_hostname W startUrl")
  case None
  then show ?thesis by (simp add: crawlSite_def Let_def)
next
  case (Some b)
  obtain st2 rep where l: "crawl_loop W startUrl b maxDepth
           (st\<lparr>queue := queue st @ [\<lparr>item_url = startUrl, item_depth = 0\<rparr>]\<rparr>, []) = (st2, rep)"
    by (cases "crawl_loop W startUrl b maxDepth
           (st\<lparr>queue := queue st @ [\<lparr>item_url = startUrl, item_depth = 0\<rparr>]\<rparr>, [])") 
  from crawl_loop_queue [of W startUrl b maxDepth
           "(st\<lparr>queue := queue st @ [\<lparr>item_url = startUrl, item_depth = 0\<rparr>]\<rparr>, [])"] l
  have "queue st2 = []" by simp
  with Some l show ?thesis by (simp add: crawlSite_def Let_def)
qed

text \<open>The entries of a URL: none before its visit, those of one visit afterwards; and a
  request is made for a URL when it is marked visited, not otherwise.\<close>

definition entries_of :: "string \<Rightarrow> page_record list \<Rightarrow> page_record list" where
  "entries_of u rep = filter (\<lambda>r. url r = u) rep"

definition visit_inv ::
  "world \<Rightarrow> string \<Rightarrow> string \<Rightarrow> nat \<Rightarrow> string set \<Rightarrow> string list
     \<Rightarrow> crawler_state \<times> page_record list \<Rightarrow> bool" where
  "visit_inv W startUrl baseDomain maxDepth V0 R0 sr \<longleftrightarrow>
     V0 \<subseteq> visited (fst sr) \<and>
     (\<exists>new. requests (fst sr) = R0 @ new \<and> distinct new \<and> set new = visited (fst sr) - V0) \<and>
     (\<forall>u \<in> visited (fst sr) - V0.
        \<exists>d \<le> maxDepth. entries_of u (snd sr) = visit_records W startUrl baseDomain u d) \<and>
     (\<forall>u. u \<notin> visited (fst sr) - V0 \<longrightarrow> entries_of u (snd sr) = [])"

lemma entries_of_append: "entries_of u (xs @ ys) = entries_of u xs @ entries_of u ys"
  by (simp add: entries_of_def)

lemma entries_of_visit_records:
  "entries_of u (visit_records W startUrl baseDomain v d) =
     (if u = v then visit_records W startUrl baseDomain v d else [])"
proof -
  have "\<forall>r \<in> set (visit_records W startUrl baseDomain v d). url r = v"
    using visit_records_fields by blast
  then show ?thesis
    unfolding entries_of_def
    by (induction "visit_records W startUrl baseDomain v d") (auto simp: filter_empty_conv filter_id_conv)
qed

lemma step_visit_inv:
  assumes "visit_inv W startUrl baseDomain maxDepth V0 R0 sr" and "queue (fst sr) \<noteq> []"
  shows "visit_inv W startUrl baseDomain maxDepth V0 R0 (step W startUrl baseDomain maxDepth sr)"
proof -
  from assms(2) obtain q rest where q: "queue (fst sr) = q # rest"
    by (rule queue_cases)
  from assms(1) have v0: "V0 \<subseteq> visited (fst sr)"
    and ex: "\<exists>new. requests (fst sr) = R0 @ new \<and> distinct new \<and>
               set new = visited (fst sr) - V0"
    and en1: "\<forall>u \<in> visited (fst sr) - V0.
        \<exists>d \<le> maxDepth. entries_of u (snd sr) = visit_records W startUrl baseDomain u d"
    and en2: "\<forall>u. u \<notin> visited (fst sr) - V0 \<longrightarrow> entries_of u (snd sr) = []"
    by (simp_all add: visit_inv_def)
  from ex obtain new where
    rq: "requests (fst sr) = R0 @ new" and dn: "distinct new" and
    sn: "set new = visited (fst sr) - V0"
    by blast
  show ?thesis
  proof (cases "item_url q \<in> visited (fst sr) \<or> maxDepth < item_depth q")
    case True
    then have st: "step W startUrl baseDomain maxDepth sr = ((fst sr)\<lparr>queue := rest\<rparr>, snd sr)"
      by (simp add: step_eq [OF q])
    show ?thesis
      unfolding st visit_inv_def using v0 ex en1 en2 by simp
  next
    case False
    let ?u = "item_url q" and ?d = "item_depth q"
    let ?recs = "visit_records W startUrl baseDomain ?u ?d"
    from False have nv: "?u \<notin> visited (fst sr)" and dd: "?d \<le> maxDepth" by simp_all
    from nv v0 have nv0: "?u \<notin> V0" by auto
    from False have st: "step W startUrl baseDomain maxDepth sr =
        ((fst sr)\<lparr>visited := insert ?u (visited (fst sr)),
                     requests := requests (fst sr) @ [?u],
                     queue := rest @ enqueue (insert ?u (visited (fst sr))) ?d
                                       (children W startUrl baseDomain ?u)\<rparr>,
         snd sr @ ?recs)"
      by (simp add: step_eq [OF q])
    have a: "V0 \<subseteq> insert ?u (visited (fst sr))"
      using v0 by auto
    have b: "\<exists>new'. requests (fst sr) @ [?u] = R0 @ new' \<and> distinct new' \<and>
               set new' = insert ?u (visited (fst sr)) - V0"
    proof (intro exI conjI)
      show "requests (fst sr) @ [?u] = R0 @ (new @ [?u])" using rq by simp
      show "distinct (new @ [?u])" using dn sn nv by simp
      show "set (new @ [?u]) = insert ?u (visited (fst sr)) - V0" using sn nv0 by auto
    qed
    have c1: "\<forall>u \<in> insert ?u (visited (fst sr)) - V0.
        \<exists>d \<le> maxDepth. entries_of u (snd sr @ ?recs) = visit_records W startUrl baseDomain u d"
    proof
      fix u assume u: "u \<in> insert ?u (visited (fst sr)) - V0"
      show "\<exists>d \<le> maxDepth. entries_of u (snd sr @ ?recs) = visit_records W startUrl baseDomain u d"
      proof (cases "u = ?u")
        case True
        from en2 nv have "entries_of ?u (snd sr) = []" by simp
        with True dd show ?thesis
          by (auto simp: entries_of_append entries_of_visit_records)
      next
        case False
        with u have "u \<in> visited (fst sr) - V0" by simp
        with en1 False show ?thesis
          by (simp add: entries_of_append entries_of_visit_records)
      qed
    qed
    have c2: "\<forall>u. u \<notin> insert ?u (visited (fst sr)) - V0 \<longrightarrow> entries_of u (snd sr @ ?recs) = []"
    proof (intro allI impI)
      fix u assume u: "u \<notin> insert ?u (visited (fst sr)) - V0"
      with nv0 have ne: "u \<noteq> ?u" by auto
      with u have "u \<notin> visited (fst sr) - V0" by simp
      with en2 ne show "entries_of u (snd sr @ ?recs) = []"
        by (simp add: entries_of_append entries_of_visit_records)
    qed
    show ?thesis
      unfolding st visit_inv_def using a b c1 c2 by simp
  qed
qed

lemma loop_visit_inv:
  assumes "visit_inv W startUrl baseDomain maxDepth V0 R0 sr"
  shows "visit_inv W startUrl baseDomain maxDepth V0 R0
           (crawl_loop W startUrl baseDomain maxDepth sr)"
  using assms
  by (rule crawl_loop_invariant [where P = "visit_inv W startUrl baseDomain maxDepth V0 R0"])
     (rule step_visit_inv)

lemma crawlSite_visits:
  assumes "crawlSite W st startUrl maxDepth = (Inr report, st')"
  obtains baseDomain new where "url_hostname W startUrl = Some baseDomain"
    and "visited st \<subseteq> visited st'"
    and "requests st' = requests st @ new" and "distinct new"
    and "set new = visited st' - visited st"
    and "\<And>u. u \<in> set new \<Longrightarrow>
           \<exists>d \<le> maxDepth. entries_of u report = visit_records W startUrl baseDomain u d"
    and "\<And>u. u \<notin> set new \<Longrightarrow> entries_of u report = []"
proof -
  let ?sr = "(st\<lparr>queue := queue st @ [\<lparr>item_url = startUrl, item_depth = 0\<rparr>]\<rparr>,
              [] :: page_record list)"
  from assms obtain b where b: "url_hostname W startUrl = Some b"
    and l: "crawl_loop W startUrl b maxDepth ?sr = (st', report)"
    by (rule crawlSite_Inr)
  have "visit_inv W startUrl b maxDepth (visited st) (requests st) ?sr"
    by (simp add: visit_inv_def entries_of_def)
  from loop_visit_inv [OF this] l
  have i: "visit_inv W startUrl b maxDepth (visited st) (requests st) (st', report)"
    by simp
  then have v0: "visited st \<subseteq> visited st'"
    and ex: "\<exists>new. requests st' = requests st @ new \<and> distinct new \<and>
               set new = visited st' - visited st"
    and en1: "\<forall>u \<in> visited st' - visited st.
               \<exists>d \<le> maxDepth. entries_of u report = visit_records W startUrl b u d"
    and en2: "\<forall>u. u \<notin> visited st' - visited st \<longrightarrow> entries_of u report = []"
    by (simp_all add: visit_inv_def)
  from ex obtain new where
    rq: "requests st' = requests st @ new" and dn: "distinct new" and
    sn: "set new = visited st' - visited st"
    by blast
  have e1: "\<exists>d \<le> maxDepth. entries_of u report = visit_records W startUrl b u d"
    if "u \<in> set new" for u
    using en1 that sn by blast
  have e2: "entries_of u report = []" if "u \<notin> set new" for u
    using en2 that sn by blast
  from b v0 rq dn sn e1 e2 show ?thesis
    by (rule that)
qed

text \<open>Within one call no URL is requested twice.\<close>

lemma requests_once:
  assumes "crawlSite W st startUrl maxDepth = (Inr report, st')"
  shows "distinct (drop (length (requests st)) (requests st'))"
  using assms by (rule crawlSite_visits) simp

text \<open>Every entry of a report is one that a visit of its URL appends.\<close>

lemma crawlSite_entries:
  assumes "crawlSite W st startUrl maxDepth = (Inr report, st')" and "r \<in> set report"
  shows "\<exists>baseDomain. r \<in> set (visit_records W startUrl baseDomain (url r) (depth r))"
proof -
  from assms(1) obtain b where
    l: "crawl_loop W startUrl b maxDepth
          (st\<lparr>queue := queue st @ [\<lparr>item_url = startUrl, item_depth = 0\<rparr>]\<rparr>, []) = (st', report)"
    by (rule crawlSite_Inr)
  have "entries_inv W startUrl b (st\<lparr>queue := queue st @ [\<lparr>item_url = startUrl, item_depth = 0\<rparr>]\<rparr>, [])"
    by (simp add: entries_inv_def)
  from loop_entries_inv [OF this, of maxDepth] l assms(2) show ?thesis
    by (auto simp: entries_inv_def)
qed

lemma link_path_0:
  assumes "link_path W startUrl baseDomain 0 u"
  shows "u = startUrl"
  using assms by (cases rule: link_path.cases) simp_all

text \<open>
  An href that line 35 keeps, that does not begin with \<open>/\<close> and that \<open>new URL\<close> cannot
  parse (a relative path such as \<open>about.html\<close>) makes line 39 throw: no link of the page
  is returned, and the visit appends the entry of line 30 and then that of line 47.
\<close>

lemma same_host_throws:
  "h \<in> set hs \<Longrightarrow> url_hostname W h = None \<Longrightarrow> same_host W baseDomain hs = None"
  by (induction hs) (auto split: option.splits)

lemma those_map_complete:
  "those (map f xs) = Some ys \<Longrightarrow> x \<in> set xs \<Longrightarrow> \<exists>y \<in> set ys. f x = Some y"
  by (induction xs arbitrary: ys) (auto split: option.splits)

lemma page_links_throws:
  assumes "h \<in> set (hrefs S)" and "href_kept h" and "\<not> startsWith h ''/''"
    and "url_hostname W h = None"
  shows "page_links W startUrl baseDomain S = None"
proof (cases "those (map (resolve W startUrl) (filter href_kept (hrefs S)))")
  case None
  then show ?thesis by (simp add: page_links_def)
next
  case (Some rs)
  from assms(1,2) have "h \<in> set (filter href_kept (hrefs S))" by simp
  from those_map_complete [OF Some this] assms(3) have "h \<in> set rs"
    by (auto simp: resolve_def)
  from same_host_throws [OF this assms(4)] Some show ?thesis
    by (simp add: page_links_def)
qed

lemma visit_records_throws:
  assumes "axios_get W u = Resolved code body" and "cheerio_load W body = Some S"
    and "page_links W startUrl baseDomain S = None"
  shows "visit_records W startUrl baseDomain u d = [ok_record S u code d, error_record u Erro d]"
    and "children W startUrl baseDomain u = []"
  using assms by (simp_all add: visit_records_def children_def)

text \<open>A failed request appends one entry and puts nothing on the queue.\<close>

lemma visit_records_rejected:
  assumes "axios_get W u = Rejected x"
  shows "visit_records W startUrl baseDomain u d = [error_record u (err_status x) d]"
    and "children W startUrl baseDomain u = []"
  using assms by (simp_all add: visit_records_def children_def)





subsection \<open>A call that runs alone in the process\<close>

text \<open>
  \<open>visit\<close> is \<open>handle_response\<close> after lines 18 and 20, and the loop of \<open>crawlSite\<close> is
  \<open>shift_until\<close> and \<open>visit\<close> in turn. So a call that starts when no call is in flight,
  and whose requests are answered before another call starts, does what \<open>crawlSite\<close>
  does from the module state it starts in.
\<close>

lemma visit_handle_response:
  "visit W startUrl baseDomain u d sr =
     handle_response W startUrl baseDomain u d
       ((fst sr)\<lparr>visited := insert u (visited (fst sr)), requests := requests (fst sr) @ [u]\<rparr>,
        snd sr)"
  by (simp add: visit_def handle_response_def Let_def)

lemma handle_response_eq:
  "handle_response W startUrl baseDomain u d sr =
     ((fst sr)\<lparr>queue := queue (fst sr)
                  @ enqueue (visited (fst sr)) d (children W startUrl baseDomain u)\<rparr>,
      snd sr @ visit_records W startUrl baseDomain u d)"
  by (simp add: handle_response_def visit_records_def children_def enqueue_def Let_def
           split: response.split option.split)

lemma shift_until_None:
  "shift_until vis maxDepth qs = None \<Longrightarrow>
     \<forall>q \<in> set qs. item_url q \<in> vis \<or> maxDepth < item_depth q"
  by (induction qs) (auto split: if_splits)

lemma shift_until_Some:
  "shift_until vis maxDepth qs = Some (q, rest) \<Longrightarrow>
     item_url q \<notin> vis \<and> item_depth q \<le> maxDepth \<and> q \<in> set qs \<and> set rest \<subseteq> set qs"
  by (induction qs) (auto split: if_splits)

lemma set_queue_update: "st\<lparr>queue := queue st\<rparr> = st"
  by simp

lemma loop_shift_none_aux:
  "queue st = qs \<Longrightarrow> shift_until (visited st) maxDepth qs = None \<Longrightarrow>
     crawl_loop W startUrl baseDomain maxDepth (st, rep) = (st\<lparr>queue := []\<rparr>, rep)"
proof (induction qs arbitrary: st)
  case Nil
  then have "st\<lparr>queue := []\<rparr> = st" by (cases st) simp
  moreover have "crawl_loop W startUrl baseDomain maxDepth (st, rep) = (st, rep)"
    using Nil by (simp add: crawl_loop_done)
  ultimately show ?case by simp
next
  case (Cons q rest)
  from Cons.prems(1) have q: "queue (fst (st, rep)) = q # rest" by simp
  from Cons.prems(2) have skip: "item_url q \<in> visited st \<or> maxDepth < item_depth q"
    and r: "shift_until (visited st) maxDepth rest = None"
    by (auto split: if_splits)
  from step_eq [OF q, of W startUrl baseDomain maxDepth] skip
  have st: "step W startUrl baseDomain maxDepth (st, rep) = (st\<lparr>queue := rest\<rparr>, rep)"
    by simp
  have "crawl_loop W startUrl baseDomain maxDepth (st, rep)
          = crawl_loop W startUrl baseDomain maxDepth (step W startUrl baseDomain maxDepth (st, rep))"
    by (rule crawl_loop_step) (simp add: Cons.prems(1))
  also have "\<dots> = crawl_loop W startUrl baseDomain maxDepth (st\<lparr>queue := rest\<rparr>, rep)"
    by (simp add: st)
  also have "\<dots> = (st\<lparr>queue := rest\<rparr>\<lparr>queue := []\<rparr>, rep)"
    by (rule Cons.IH) (simp_all add: r)
  finally show ?case by simp
qed

lemma loop_shift_none:
  assumes "shift_until (visited st) maxDepth (queue st) = None"
  shows "crawl_loop W startUrl baseDomain maxDepth (st, rep) = (st\<lparr>queue := []\<rparr>, rep)"
  using loop_shift_none_aux [OF refl assms] .

lemma loop_shift_some_aux:
  "queue st = qs \<Longrightarrow> shift_until (visited st) maxDepth qs = Some (q, rest) \<Longrightarrow>
     crawl_loop W startUrl baseDomain maxDepth (st, rep) =
       crawl_loop W startUrl baseDomain maxDepth
         (visit W startUrl baseDomain (item_url q) (item_depth q) (st\<lparr>queue := rest\<rparr>, rep)) \<and>
     queue_weight W startUrl baseDomain maxDepth
         (visit W startUrl baseDomain (item_url q) (item_depth q) (st\<lparr>queue := rest\<rparr>, rep))
       < queue_weight W startUrl baseDomain maxDepth (st, rep)"
proof (induction qs arbitrary: st)
  case Nil
  then show ?case by simp
next
  case (Cons q' rest')
  have qq: "queue (fst (st, rep)) = q' # rest'" using Cons.prems(1) by simp
  then have ne: "queue (fst (st, rep)) \<noteq> []" by simp
  have ls: "crawl_loop W startUrl baseDomain maxDepth (st, rep)
          = crawl_loop W startUrl baseDomain maxDepth (step W startUrl baseDomain maxDepth (st, rep))"
    using ne by (rule crawl_loop_step)
  have dec: "queue_weight W startUrl baseDomain maxDepth (step W startUrl baseDomain maxDepth (st, rep))
           < queue_weight W startUrl baseDomain maxDepth (st, rep)"
    using ne by (rule step_decreases)
  show ?case
  proof (cases "item_url q' \<in> visited st \<or> maxDepth < item_depth q'")
    case True
    with Cons.prems(2) have r: "shift_until (visited st) maxDepth rest' = Some (q, rest)"
      by auto
    from step_eq [OF qq, of W startUrl baseDomain maxDepth] True
    have st: "step W startUrl baseDomain maxDepth (st, rep) = (st\<lparr>queue := rest'\<rparr>, rep)"
      by simp
    have "queue (st\<lparr>queue := rest'\<rparr>) = rest'" by simp
    from Cons.IH [OF this] r
    have "crawl_loop W startUrl baseDomain maxDepth (st\<lparr>queue := rest'\<rparr>, rep) =
       crawl_loop W startUrl baseDomain maxDepth
         (visit W startUrl baseDomain (item_url q) (item_depth q) (st\<lparr>queue := rest\<rparr>, rep))"
      and "queue_weight W startUrl baseDomain maxDepth
         (visit W startUrl baseDomain (item_url q) (item_depth q) (st\<lparr>queue := rest\<rparr>, rep))
       < queue_weight W startUrl baseDomain maxDepth (st\<lparr>queue := rest'\<rparr>, rep)"
      by simp_all
    with ls dec st show ?thesis by simp
  next
    case False
    with Cons.prems(2) have e: "q' = q" "rest' = rest"
      by auto
    from False qq e have "step W startUrl baseDomain maxDepth (st, rep)
        = visit W startUrl baseDomain (item_url q) (item_depth q) (st\<lparr>queue := rest\<rparr>, rep)"
      by (simp add: step_def)
    with ls dec show ?thesis by simp
  qed
qed

lemma loop_shift_some:
  assumes "shift_until (visited st) maxDepth (queue st) = Some (q, rest)"
  shows "crawl_loop W startUrl baseDomain maxDepth (st, rep) =
           crawl_loop W startUrl baseDomain maxDepth
             (visit W startUrl baseDomain (item_url q) (item_depth q) (st\<lparr>queue := rest\<rparr>, rep))"
    and "queue_weight W startUrl baseDomain maxDepth
           (visit W startUrl baseDomain (item_url q) (item_depth q) (st\<lparr>queue := rest\<rparr>, rep))
         < queue_weight W startUrl baseDomain maxDepth (st, rep)"
  using loop_shift_some_aux [OF refl assms] by simp_all

lemma run_append: "run W (xs @ ys) sys = run W ys (run W xs sys)"
  by (induction xs arbitrary: sys) simp_all

lemma run_idle:
  "inflight sys = [] \<Longrightarrow> run W (replicate k (Resume i)) sys = sys"
  by (induction k) (simp_all add: resume_call_def)

lemma proceed_None:
  assumes "shift_until (visited (shared sys)) (call_maxDepth c) (queue (shared sys)) = None"
  shows "proceed c sys =
          sys\<lparr>shared := (shared sys)\<lparr>queue := []\<rparr>,
              outcomes := outcomes sys @ [(call_startUrl c, call_maxDepth c, Inr (call_report c))]\<rparr>"
  using assms by (simp add: proceed_def)

lemma proceed_Some:
  assumes "shift_until (visited (shared sys)) (call_maxDepth c) (queue (shared sys)) = Some (q, rest)"
  shows "proceed c sys =
          sys\<lparr>shared := (shared sys)\<lparr>queue := rest,
                                       visited := insert (item_url q) (visited (shared sys)),
                                       requests := requests (shared sys) @ [item_url q]\<rparr>,
              inflight := inflight sys @ [(c, q)]\<rparr>"
  using assms by (simp add: proceed_def)

lemma solo_proceed:
  assumes "inflight sys = []"
  shows "\<exists>n. (\<forall>m < n. outcomes (run W (replicate m (Resume 0))
                   (proceed \<lparr>call_startUrl = s, call_baseDomain = b, call_maxDepth = D,
                             call_report = rep\<rparr> sys)) = outcomes sys) \<and>
             run W (replicate n (Resume 0))
               (proceed \<lparr>call_startUrl = s, call_baseDomain = b, call_maxDepth = D,
                         call_report = rep\<rparr> sys)
               = sys\<lparr>shared := fst (crawl_loop W s b D (shared sys, rep)),
                     outcomes := outcomes sys
                       @ [(s, D, Inr (snd (crawl_loop W s b D (shared sys, rep))))]\<rparr>"
  using assms
proof (induction "queue_weight W s b D (shared sys, rep)" arbitrary: sys rep rule: less_induct)
  case less
  let ?c = "\<lparr>call_startUrl = s, call_baseDomain = b, call_maxDepth = D, call_report = rep\<rparr>"
  let ?st = "shared sys"
  show ?case
  proof (cases "shift_until (visited ?st) D (queue ?st)")
    case None
    then have p: "proceed ?c sys =
          sys\<lparr>shared := ?st\<lparr>queue := []\<rparr>, outcomes := outcomes sys @ [(s, D, Inr rep)]\<rparr>"
      using proceed_None [of sys ?c] by simp
    from None have l: "crawl_loop W s b D (?st, rep) = (?st\<lparr>queue := []\<rparr>, rep)"
      by (rule loop_shift_none)
    have "run W (replicate 0 (Resume 0)) (proceed ?c sys)
           = sys\<lparr>shared := fst (crawl_loop W s b D (?st, rep)),
                 outcomes := outcomes sys @ [(s, D, Inr (snd (crawl_loop W s b D (?st, rep))))]\<rparr>"
      by (simp add: p l)
    then show ?thesis by blast
  next
    case (Some a)
    obtain q rest where a: "a = (q, rest)" by (cases a)
    with Some have sh: "shift_until (visited ?st) D (queue ?st) = Some (q, rest)" by simp
    let ?marked = "?st\<lparr>queue := rest, visited := insert (item_url q) (visited ?st),
                         requests := requests ?st @ [item_url q]\<rparr>"
    let ?sys1 = "sys\<lparr>shared := ?marked, inflight := [(?c, q)]\<rparr>"
    from sh less.prems have p: "proceed ?c sys = ?sys1"
      using proceed_Some [of sys ?c q rest] by simp
    obtain st' rep' where v: "visit W s b (item_url q) (item_depth q) (?st\<lparr>queue := rest\<rparr>, rep)
                                = (st', rep')"
      by (cases "visit W s b (item_url q) (item_depth q) (?st\<lparr>queue := rest\<rparr>, rep)")
    then have h: "handle_response W s b (item_url q) (item_depth q) (?marked, rep) = (st', rep')"
      by (simp add: visit_handle_response)
    let ?c' = "\<lparr>call_startUrl = s, call_baseDomain = b, call_maxDepth = D, call_report = rep'\<rparr>"
    let ?sys2 = "sys\<lparr>shared := st'\<rparr>"
    have e: "sys\<lparr>shared := st', inflight := []\<rparr> = ?sys2"
      using less.prems by (cases sys) simp
    have r: "resume_call W 0 ?sys1 = proceed ?c' ?sys2"
      using h by (simp add: resume_call_def e)
    from loop_shift_some [OF sh, of W s b rep] v
    have l: "crawl_loop W s b D (?st, rep) = crawl_loop W s b D (st', rep')"
      and w: "queue_weight W s b D (st', rep') < queue_weight W s b D (?st, rep)"
      by simp_all
    from w have w2: "queue_weight W s b D (shared ?sys2, rep') < queue_weight W s b D (?st, rep)"
      by simp
    have i2: "inflight ?sys2 = []" using less.prems by simp
    from less.hyps [OF w2 i2] obtain n where
      n1: "\<forall>m < n. outcomes (run W (replicate m (Resume 0)) (proceed ?c' ?sys2)) = outcomes ?sys2"
      and n2: "run W (replicate n (Resume 0)) (proceed ?c' ?sys2)
               = ?sys2\<lparr>shared := fst (crawl_loop W s b D (shared ?sys2, rep')),
                     outcomes := outcomes ?sys2
                       @ [(s, D, Inr (snd (crawl_loop W s b D (shared ?sys2, rep'))))]\<rparr>"
      by blast
    have a1: "outcomes (run W (replicate m (Resume 0)) (proceed ?c sys)) = outcomes sys"
      if "m < Suc n" for m
    proof (cases m)
      case 0
      then show ?thesis by (simp add: p)
    next
      case (Suc m')
      with that have "m' < n" by simp
      with n1 have "outcomes (run W (replicate m' (Resume 0)) (proceed ?c' ?sys2)) = outcomes ?sys2"
        by blast
      with Suc show ?thesis by (simp add: p r)
    qed
    have a2: "run W (replicate (Suc n) (Resume 0)) (proceed ?c sys)
               = sys\<lparr>shared := fst (crawl_loop W s b D (?st, rep)),
                     outcomes := outcomes sys @ [(s, D, Inr (snd (crawl_loop W s b D (?st, rep))))]\<rparr>"
      using n2 by (simp add: p r l)
    from a1 a2 show ?thesis by blast
  qed
qed

lemma solo_start:
  assumes "inflight sys = []"
  shows "\<exists>n. (\<forall>m < n. outcomes (run W (replicate m (Resume 0))
                   (start_call W startUrl maxDepth sys)) = outcomes sys) \<and>
             run W (replicate n (Resume 0)) (start_call W startUrl maxDepth sys)
               = sys\<lparr>shared := snd (crawlSite W (shared sys) startUrl maxDepth),
                     outcomes := outcomes sys
                       @ [(startUrl, maxDepth, fst (crawlSite W (shared sys) startUrl maxDepth))]\<rparr>"
proof (cases "url_hostname W startUrl")
  case None
  then have "run W (replicate 0 (Resume 0)) (start_call W startUrl maxDepth sys)
               = sys\<lparr>shared := snd (crawlSite W (shared sys) startUrl maxDepth),
                     outcomes := outcomes sys
                       @ [(startUrl, maxDepth, fst (crawlSite W (shared sys) startUrl maxDepth))]\<rparr>"
    by (simp add: start_call_def crawlSite_def Let_def)
  then show ?thesis by blast
next
  case (Some b)
  let ?st1 = "(shared sys)\<lparr>queue := queue (shared sys) @ [\<lparr>item_url = startUrl, item_depth = 0\<rparr>]\<rparr>"
  let ?sys1 = "sys\<lparr>shared := ?st1\<rparr>"
  have s: "start_call W startUrl maxDepth sys
        = proceed \<lparr>call_startUrl = startUrl, call_baseDomain = b, call_maxDepth = maxDepth,
                   call_report = []\<rparr> ?sys1"
    using Some by (simp add: start_call_def Let_def)
  have c: "crawlSite W (shared sys) startUrl maxDepth
        = (Inr (snd (crawl_loop W startUrl b maxDepth (?st1, []))),
           fst (crawl_loop W startUrl b maxDepth (?st1, [])))"
    using Some by (simp add: crawlSite_def Let_def split: prod.split)
  have "inflight ?sys1 = []" using assms by simp
  from solo_proceed [OF this, of W startUrl b maxDepth "[]"] show ?thesis
    by (simp add: s c)
qed

lemma solo_report:
  assumes "inflight sys = []"
    and "outcomes (run W (Start startUrl maxDepth # replicate n (Resume 0)) sys)
           = outcomes sys @ [(startUrl, maxDepth, Inr report)]"
  shows "\<exists>st'. crawlSite W (shared sys) startUrl maxDepth = (Inr report, st')"
proof -
  let ?final = "sys\<lparr>shared := snd (crawlSite W (shared sys) startUrl maxDepth),
                     outcomes := outcomes sys
                       @ [(startUrl, maxDepth, fst (crawlSite W (shared sys) startUrl maxDepth))]\<rparr>"
  from solo_start [OF assms(1), of W startUrl maxDepth] obtain k where
    k1: "\<forall>m < k. outcomes (run W (replicate m (Resume 0))
                   (start_call W startUrl maxDepth sys)) = outcomes sys"
    and k2: "run W (replicate k (Resume 0)) (start_call W startUrl maxDepth sys) = ?final"
    by blast
  from assms(2) have o: "outcomes (run W (replicate n (Resume 0)) (start_call W startUrl maxDepth sys))
           = outcomes sys @ [(startUrl, maxDepth, Inr report)]"
    by simp
  have "\<not> n < k"
  proof
    assume "n < k"
    with k1 o show False by simp
  qed
  then have "replicate n (Resume 0) = replicate k (Resume 0) @ replicate (n - k) (Resume 0)"
    by (simp add: replicate_add [symmetric])
  then have "run W (replicate n (Resume 0)) (start_call W startUrl maxDepth sys)
           = run W (replicate (n - k) (Resume 0)) ?final"
    by (simp add: run_append k2)
  also have "\<dots> = ?final"
    by (rule run_idle) (simp add: assms(1))
  finally have "fst (crawlSite W (shared sys) startUrl maxDepth) = Inr report"
    using o by simp
  then show ?thesis
    by (cases "crawlSite W (shared sys) startUrl maxDepth") simp
qed

subsection \<open>Invariants of overlapping calls\<close>

lemma run_invariant:
  assumes "P sys"
    and "\<And>x s D. P x \<Longrightarrow> P (start_call W s D x)"
    and "\<And>x i. P x \<Longrightarrow> P (resume_call W i x)"
  shows "P (run W evs sys)"
  using assms(1)
proof (induction evs arbitrary: sys)
  case Nil
  then show ?case by simp
next
  case (Cons e evs)
  have "P (apply_event W e sys)"
    using Cons.prems assms(2,3) by (cases e) simp_all
  then show ?case
    by (simp add: Cons.IH)
qed

text \<open>When no call is in flight, the queue holds nothing but the seeds of calls that threw.\<close>

definition idle_queue :: "world \<Rightarrow> system \<Rightarrow> bool" where
  "idle_queue W sys \<longleftrightarrow>
     (inflight sys = [] \<longrightarrow>
        (\<forall>q \<in> set (queue (shared sys)). item_depth q = 0 \<and> url_hostname W (item_url q) = None))"

lemma proceed_idle:
  "inflight (proceed c sys) = [] \<Longrightarrow> queue (shared (proceed c sys)) = []"
  by (auto simp: proceed_def split: option.splits)

lemma proceed_idle_queue: "idle_queue W (proceed c sys)"
  using proceed_idle [of c sys] by (simp add: idle_queue_def)

lemma start_call_idle_queue:
  assumes "idle_queue W sys"
  shows "idle_queue W (start_call W s D sys)"
proof (cases "url_hostname W s")
  case None
  with assms show ?thesis
    by (auto simp: start_call_def idle_queue_def Let_def)
next
  case (Some b)
  then show ?thesis
    by (simp add: start_call_def Let_def proceed_idle_queue)
qed

lemma resume_call_idle_queue:
  assumes "idle_queue W sys"
  shows "idle_queue W (resume_call W i sys)"
  using assms by (simp add: resume_call_def proceed_idle_queue split: prod.split)

lemma run_idle_queue:
  assumes "inflight (run W evs initial) = []"
  shows "\<forall>q \<in> set (queue (shared (run W evs initial))).
           item_depth q = 0 \<and> url_hostname W (item_url q) = None"
proof -
  have "idle_queue W initial"
    by (simp add: idle_queue_def initial_def fresh_def)
  then have "idle_queue W (run W evs initial)"
    by (rule run_invariant) (rule start_call_idle_queue, assumption, rule resume_call_idle_queue)
  with assms show ?thesis
    by (simp add: idle_queue_def)
qed

text \<open>In every call, overlapped or not, the depth of an entry is within the bound of
  the call.\<close>

definition call_depths :: "call \<Rightarrow> bool" where
  "call_depths c \<longleftrightarrow> (\<forall>r \<in> set (call_report c). depth r \<le> call_maxDepth c)"

definition depth_inv :: "system \<Rightarrow> bool" where
  "depth_inv sys \<longleftrightarrow>
     (\<forall>x \<in> set (inflight sys). call_depths (fst x) \<and> item_depth (snd x) \<le> call_maxDepth (fst x)) \<and>
     (\<forall>x \<in> set (outcomes sys). \<forall>rep. snd (snd x) = Inr rep \<longrightarrow>
        (\<forall>r \<in> set rep. depth r \<le> fst (snd x)))"

lemma proceed_depth_inv:
  assumes "depth_inv sys" and "call_depths c"
  shows "depth_inv (proceed c sys)"
proof (cases "shift_until (visited (shared sys)) (call_maxDepth c) (queue (shared sys))")
  case None
  from proceed_None [OF this] assms show ?thesis
    by (auto simp: depth_inv_def call_depths_def)
next
  case (Some a)
  obtain q rest where "a = (q, rest)" by (cases a)
  with Some have sh: "shift_until (visited (shared sys)) (call_maxDepth c) (queue (shared sys))
                        = Some (q, rest)" by simp
  from shift_until_Some [OF sh] have "item_depth q \<le> call_maxDepth c" by simp
  with proceed_Some [OF sh] assms show ?thesis
    by (auto simp: depth_inv_def)
qed

lemma depth_inv_shared: "depth_inv (sys\<lparr>shared := st\<rparr>) = depth_inv sys"
  by (simp add: depth_inv_def)

lemma start_call_depth_inv:
  assumes "depth_inv sys"
  shows "depth_inv (start_call W s D sys)"
proof (cases "url_hostname W s")
  case None
  with assms show ?thesis
    by (auto simp: start_call_def depth_inv_def Let_def)
next
  case (Some b)
  have "call_depths \<lparr>call_startUrl = s, call_baseDomain = b, call_maxDepth = D, call_report = []\<rparr>"
    by (simp add: call_depths_def)
  with assms Some show ?thesis
    by (simp add: start_call_def Let_def proceed_depth_inv depth_inv_shared)
qed

lemma resume_call_eq:
  assumes "i < length (inflight sys)" and "inflight sys ! i = (c, q)"
  shows "resume_call W i sys =
           proceed (c\<lparr>call_report := snd (handle_response W (call_startUrl c) (call_baseDomain c)
                                           (item_url q) (item_depth q) (shared sys, call_report c))\<rparr>)
             (sys\<lparr>shared := fst (handle_response W (call_startUrl c) (call_baseDomain c)
                                    (item_url q) (item_depth q) (shared sys, call_report c)),
                  inflight := take i (inflight sys) @ drop (Suc i) (inflight sys)\<rparr>)"
  using assms by (simp add: resume_call_def case_prod_beta)

lemma resume_call_depth_inv:
  assumes "depth_inv sys"
  shows "depth_inv (resume_call W i sys)"
proof (cases "i < length (inflight sys)")
  case False
  with assms show ?thesis by (simp add: resume_call_def)
next
  case True
  obtain c q where cq: "inflight sys ! i = (c, q)" by (cases "inflight sys ! i")
  with True have m: "(c, q) \<in> set (inflight sys)"
    by (metis nth_mem)
  with assms have c: "call_depths c" and q: "item_depth q \<le> call_maxDepth c"
    by (auto simp: depth_inv_def)
  let ?h = "handle_response W (call_startUrl c) (call_baseDomain c) (item_url q) (item_depth q)
              (shared sys, call_report c)"
  have rep: "snd ?h = call_report c
                @ visit_records W (call_startUrl c) (call_baseDomain c) (item_url q) (item_depth q)"
    by (simp add: handle_response_eq)
  have "\<forall>r \<in> set (visit_records W (call_startUrl c) (call_baseDomain c) (item_url q) (item_depth q)).
          depth r = item_depth q"
    using visit_records_fields by blast
  with c q rep have c': "call_depths (c\<lparr>call_report := snd ?h\<rparr>)"
    by (auto simp: call_depths_def)
  let ?sys' = "sys\<lparr>shared := fst ?h,
                    inflight := take i (inflight sys) @ drop (Suc i) (inflight sys)\<rparr>"
  have "set (take i (inflight sys) @ drop (Suc i) (inflight sys)) \<subseteq> set (inflight sys)"
    using set_take_subset set_drop_subset by (metis Un_least set_append)
  with assms have "depth_inv ?sys'"
    by (auto simp: depth_inv_def)
  from proceed_depth_inv [OF this c'] show ?thesis
    by (simp add: resume_call_eq [OF True cq])
qed

lemma run_depth_bound:
  assumes "(startUrl, maxDepth, Inr report) \<in> set (outcomes (run W evs initial))"
  shows "\<forall>r \<in> set report. depth r \<le> maxDepth"
proof -
  have "depth_inv initial"
    by (simp add: depth_inv_def initial_def)
  then have "depth_inv (run W evs initial)"
    by (rule run_invariant) (rule start_call_depth_inv, assumption, rule resume_call_depth_inv)
  with assms show ?thesis
    by (force simp: depth_inv_def)
qed

text \<open>In every call, overlapped or not, an entry of the report is one that the visit of
  its URL by that call appends.\<close>

definition call_entries :: "world \<Rightarrow> call \<Rightarrow> bool" where
  "call_entries W c \<longleftrightarrow>
     url_hostname W (call_startUrl c) = Some (call_baseDomain c) \<and>
     (\<forall>r \<in> set (call_report c).
        r \<in> set (visit_records W (call_startUrl c) (call_baseDomain c) (url r) (depth r)))"

definition report_inv :: "world \<Rightarrow> system \<Rightarrow> bool" where
  "report_inv W sys \<longleftrightarrow>
     (\<forall>x \<in> set (inflight sys). call_entries W (fst x)) \<and>
     (\<forall>x \<in> set (outcomes sys). \<forall>rep. snd (snd x) = Inr rep \<longrightarrow>
        (\<exists>b. url_hostname W (fst x) = Some b \<and>
           (\<forall>r \<in> set rep. r \<in> set (visit_records W (fst x) b (url r) (depth r)))))"

lemma proceed_report_inv:
  assumes "report_inv W sys" and "call_entries W c"
  shows "report_inv W (proceed c sys)"
proof (cases "shift_until (visited (shared sys)) (call_maxDepth c) (queue (shared sys))")
  case None
  from proceed_None [OF this] assms show ?thesis
    by (auto simp: report_inv_def call_entries_def)
next
  case (Some a)
  obtain q rest where "a = (q, rest)" by (cases a)
  with Some have sh: "shift_until (visited (shared sys)) (call_maxDepth c) (queue (shared sys))
                        = Some (q, rest)" by simp
  from proceed_Some [OF sh] assms show ?thesis
    by (auto simp: report_inv_def)
qed

lemma report_inv_shared: "report_inv W (sys\<lparr>shared := st\<rparr>) = report_inv W sys"
  by (simp add: report_inv_def)

lemma start_call_report_inv:
  assumes "report_inv W sys"
  shows "report_inv W (start_call W s D sys)"
proof (cases "url_hostname W s")
  case None
  with assms show ?thesis
    by (auto simp: start_call_def report_inv_def Let_def)
next
  case (Some b)
  then have "call_entries W
               \<lparr>call_startUrl = s, call_baseDomain = b, call_maxDepth = D, call_report = []\<rparr>"
    by (simp add: call_entries_def)
  with assms Some show ?thesis
    by (simp add: start_call_def Let_def proceed_report_inv report_inv_shared)
qed

lemma resume_call_report_inv:
  assumes "report_inv W sys"
  shows "report_inv W (resume_call W i sys)"
proof (cases "i < length (inflight sys)")
  case False
  with assms show ?thesis by (simp add: resume_call_def)
next
  case True
  obtain c q where cq: "inflight sys ! i = (c, q)" by (cases "inflight sys ! i")
  with True have m: "(c, q) \<in> set (inflight sys)"
    by (metis nth_mem)
  with assms have c: "call_entries W c"
    by (auto simp: report_inv_def)
  let ?h = "handle_response W (call_startUrl c) (call_baseDomain c) (item_url q) (item_depth q)
              (shared sys, call_report c)"
  let ?new = "visit_records W (call_startUrl c) (call_baseDomain c) (item_url q) (item_depth q)"
  have rep: "snd ?h = call_report c @ ?new"
    by (simp add: handle_response_eq)
  have "r \<in> set (visit_records W (call_startUrl c) (call_baseDomain c) (url r) (depth r))"
    if "r \<in> set ?new" for r
    using that visit_records_fields [OF that] by simp
  with c rep have c': "call_entries W (c\<lparr>call_report := snd ?h\<rparr>)"
    by (auto simp: call_entries_def)
  let ?sys' = "sys\<lparr>shared := fst ?h,
                    inflight := take i (inflight sys) @ drop (Suc i) (inflight sys)\<rparr>"
  have "set (take i (inflight sys) @ drop (Suc i) (inflight sys)) \<subseteq> set (inflight sys)"
    using set_take_subset set_drop_subset by (metis Un_least set_append)
  with assms have "report_inv W ?sys'"
    by (auto simp: report_inv_def)
  from proceed_report_inv [OF this c'] show ?thesis
    by (simp add: resume_call_eq [OF True cq])
qed

lemma run_entries:
  assumes "(startUrl, maxDepth, Inr report) \<in> set (outcomes (run W evs initial))"
  shows "\<exists>b. url_hostname W startUrl = Some b \<and>
             (\<forall>r \<in> set report. r \<in> set (visit_records W startUrl b (url r) (depth r)))"
proof -
  have "report_inv W initial"
    by (simp add: report_inv_def initial_def)
  then have "report_inv W (run W evs initial)"
    by (rule run_invariant) (rule start_call_report_inv, assumption, rule resume_call_report_inv)
  with assms show ?thesis
    by (force simp: report_inv_def)
qed

text \<open>The status and the title of an entry, by the answer to the request for its URL.\<close>

lemma visit_records_rejected_fields:
  assumes "r \<in> set (visit_records W startUrl baseDomain u d)" and "axios_get W u = Rejected x"
  shows "status r = err_status x \<and> title r = None"
  using assms by (auto simp: visit_records_def error_record_def)


subsection \<open>A call on a queue that holds left-over seeds\<close>

lemma crawlSite_loop:
  assumes "crawlSite W st startUrl maxDepth = (Inr report, st')"
    and "url_hostname W startUrl = Some baseDomain"
  shows "crawl_loop W startUrl baseDomain maxDepth
           (st\<lparr>queue := queue st @ [\<lparr>item_url = startUrl, item_depth = 0\<rparr>]\<rparr>, []) = (st', report)"
proof -
  from assms(1) obtain b where "url_hostname W startUrl = Some b"
    and "crawl_loop W startUrl b maxDepth
           (st\<lparr>queue := queue st @ [\<lparr>item_url = startUrl, item_depth = 0\<rparr>]\<rparr>, []) = (st', report)"
    by (rule crawlSite_Inr)
  with assms(2) show ?thesis by simp
qed

lemma crawlSite_breadth_first:
  assumes "\<forall>q \<in> set (queue st). item_depth q = 0"
    and "crawlSite W st startUrl maxDepth = (Inr report, st')"
  shows "sorted (map depth report)"
proof -
  let ?sr = "(st\<lparr>queue := queue st @ [\<lparr>item_url = startUrl, item_depth = 0\<rparr>]\<rparr>,
              [] :: page_record list)"
  from assms(2) obtain b where l: "crawl_loop W startUrl b maxDepth ?sr = (st', report)"
    by (rule crawlSite_Inr)
  have "sorted (map item_depth ([] @ queue st @ [\<lparr>item_url = startUrl, item_depth = 0\<rparr>]))"
    by (rule sorted_append_level [where c = 0]) (use assms(1) in simp_all)
  then have "sorted (map item_depth (queue (fst ?sr)))"
    by simp
  moreover have "\<forall>q \<in> set (queue (fst ?sr)). 0 \<le> item_depth q \<and> item_depth q \<le> Suc 0"
    using assms(1) by simp
  ultimately have "bfs_inv ?sr"
    unfolding bfs_inv_def by (intro conjI exI [of _ 0]) simp_all
  from loop_bfs_inv [OF this, of W startUrl b maxDepth] l
  show ?thesis
    by (simp add: bfs_inv_def)
qed

lemma crawlSite_hosts:
  assumes "\<forall>q \<in> set (queue st). url_hostname W (item_url q) = None"
    and "crawlSite W st startUrl maxDepth = (Inr report, st')"
    and "url_hostname W startUrl = Some baseDomain"
  shows "\<forall>r \<in> set report. \<forall>h. url_hostname W (url r) = Some h \<longrightarrow> h = baseDomain"
proof -
  let ?sr = "(st\<lparr>queue := queue st @ [\<lparr>item_url = startUrl, item_depth = 0\<rparr>]\<rparr>,
              [] :: page_record list)"
  from assms(2,3) have l: "crawl_loop W startUrl baseDomain maxDepth ?sr = (st', report)"
    by (rule crawlSite_loop)
  have "\<forall>q \<in> set (queue st). host_ok W baseDomain (item_url q)"
    using assms(1) by (simp add: host_ok_def)
  moreover have "host_ok W baseDomain startUrl"
    using assms(3) by (simp add: host_ok_def)
  ultimately have "host_inv W baseDomain ?sr"
    by (simp add: host_inv_def)
  from loop_host_inv [OF this, of startUrl maxDepth] l
  have "\<forall>r \<in> set report. host_ok W baseDomain (url r)"
    by (simp add: host_inv_def)
  then show ?thesis
    by (simp add: host_ok_def)
qed

text \<open>The end of a path of links has the hostname of the seed.\<close>

lemma link_path_hostname:
  assumes "link_path W startUrl baseDomain n u" and "url_hostname W startUrl = Some baseDomain"
  shows "url_hostname W u = Some baseDomain"
  using assms by (cases rule: link_path.cases) simp_all

text \<open>
  An item or an entry is at the end of a path of links from the seed, or it is a seed
  left by a call that threw, whose URL has no hostname and whose request fails.
\<close>

definition left_over :: "world \<Rightarrow> string \<Rightarrow> bool" where
  "left_over W u \<longleftrightarrow> url_hostname W u = None \<and> (\<exists>x. axios_get W u = Rejected x)"

definition seed_path_inv ::
  "world \<Rightarrow> string \<Rightarrow> string \<Rightarrow> crawler_state \<times> page_record list \<Rightarrow> bool" where
  "seed_path_inv W startUrl baseDomain sr \<longleftrightarrow>
     (\<forall>q \<in> set (queue (fst sr)).
        link_path W startUrl baseDomain (item_depth q) (item_url q) \<or> left_over W (item_url q)) \<and>
     (\<forall>r \<in> set (snd sr).
        link_path W startUrl baseDomain (depth r) (url r) \<or> left_over W (url r))"

lemma step_seed_path_inv:
  assumes "seed_path_inv W startUrl baseDomain sr" and "queue (fst sr) \<noteq> []"
  shows "seed_path_inv W startUrl baseDomain (step W startUrl baseDomain maxDepth sr)"
proof -
  from assms(2) obtain q rest where q: "queue (fst sr) = q # rest"
    by (rule queue_cases)
  let ?ok_item = "\<lambda>x. link_path W startUrl baseDomain (item_depth x) (item_url x)
                        \<or> left_over W (item_url x)"
  let ?ok_entry = "\<lambda>r. link_path W startUrl baseDomain (depth r) (url r) \<or> left_over W (url r)"
  from assms(1) q have pq: "?ok_item q"
    and prest: "\<forall>x \<in> set rest. ?ok_item x"
    and prep: "\<forall>r \<in> set (snd sr). ?ok_entry r"
    by (simp_all add: seed_path_inv_def)
  show ?thesis
  proof (cases "item_url q \<in> visited (fst sr) \<or> maxDepth < item_depth q")
    case True
    then have "step W startUrl baseDomain maxDepth sr = ((fst sr)\<lparr>queue := rest\<rparr>, snd sr)"
      by (simp add: step_eq [OF q])
    then show ?thesis
      using prest prep by (simp add: seed_path_inv_def)
  next
    case False
    let ?recs = "visit_records W startUrl baseDomain (item_url q) (item_depth q)"
    let ?kids = "children W startUrl baseDomain (item_url q)"
    let ?new = "enqueue (insert (item_url q) (visited (fst sr))) (item_depth q) ?kids"
    from False have st: "step W startUrl baseDomain maxDepth sr =
        ((fst sr)\<lparr>visited := insert (item_url q) (visited (fst sr)),
                     requests := requests (fst sr) @ [item_url q],
                     queue := rest @ ?new\<rparr>,
         snd sr @ ?recs)"
      by (simp add: step_eq [OF q])
    have recs: "\<forall>r \<in> set ?recs. ?ok_entry r"
    proof
      fix r assume "r \<in> set ?recs"
      from visit_records_fields [OF this] pq show "?ok_entry r" by simp
    qed
    have new: "\<forall>x \<in> set ?new. ?ok_item x"
    proof
      fix x assume x: "x \<in> set ?new"
      from enqueue_set [OF x] have d: "item_depth x = Suc (item_depth q)"
        and k: "item_url x \<in> set ?kids" by simp_all
      from pq show "?ok_item x"
      proof
        assume "link_path W startUrl baseDomain (item_depth q) (item_url q)"
        from children_link_path [OF this k] d show ?thesis by simp
      next
        assume "left_over W (item_url q)"
        then obtain e where "axios_get W (item_url q) = Rejected e"
          by (auto simp: left_over_def)
        then have "?kids = []" by (simp add: children_def)
        with k show ?thesis by simp
      qed
    qed
    have a: "\<forall>x \<in> set (rest @ ?new). ?ok_item x"
      using prest new by auto
    have b: "\<forall>r \<in> set (snd sr @ ?recs). ?ok_entry r"
      using prep recs by auto
    show ?thesis
      unfolding st seed_path_inv_def using a b by simp
  qed
qed

lemma loop_seed_path_inv:
  assumes "seed_path_inv W startUrl baseDomain sr"
  shows "seed_path_inv W startUrl baseDomain (crawl_loop W startUrl baseDomain maxDepth sr)"
  using assms
  by (rule crawl_loop_invariant [where P = "seed_path_inv W startUrl baseDomain"])
     (rule step_seed_path_inv)

lemma crawlSite_link_distance:
  assumes "\<forall>q \<in> set (queue st). left_over W (item_url q)"
    and "crawlSite W st startUrl maxDepth = (Inr report, st')"
    and "url_hostname W startUrl = Some baseDomain"
    and "link_path W startUrl baseDomain m u"
    and "\<forall>n. link_path W startUrl baseDomain n u \<longrightarrow> maxDepth < n"
  shows "u \<notin> url ` set report"
proof
  assume "u \<in> url ` set report"
  then obtain r where r: "r \<in> set report" and u: "u = url r" by blast
  let ?sr = "(st\<lparr>queue := queue st @ [\<lparr>item_url = startUrl, item_depth = 0\<rparr>]\<rparr>,
              [] :: page_record list)"
  from assms(2,3) have l: "crawl_loop W startUrl baseDomain maxDepth ?sr = (st', report)"
    by (rule crawlSite_loop)
  have "seed_path_inv W startUrl baseDomain ?sr"
    using assms(1) by (simp add: seed_path_inv_def link_path.seed)
  from loop_seed_path_inv [OF this, of maxDepth] l r
  have "link_path W startUrl baseDomain (depth r) (url r) \<or> left_over W (url r)"
    by (simp add: seed_path_inv_def)
  then show False
  proof
    assume p: "link_path W startUrl baseDomain (depth r) (url r)"
    with assms(5) u have "maxDepth < depth r" by blast
    moreover have "\<forall>r \<in> set (snd ?sr). depth r \<le> maxDepth" by simp
    from loop_depth_bound [OF this, of W startUrl baseDomain] l r
    have "depth r \<le> maxDepth" by simp
    ultimately show False by simp
  next
    assume "left_over W (url r)"
    then have "url_hostname W u = None" using u by (simp add: left_over_def)
    with link_path_hostname [OF assms(4,3)] show False by simp
  qed
qed

subsection \<open>Paths of links on the example site\<close>

lemma link_path_Suc:
  assumes "link_path W startUrl baseDomain (Suc n) l"
  obtains v code body S h where "link_path W startUrl baseDomain n v"
    and "axios_get W v = Resolved code body" and "cheerio_load W body = Some S"
    and "h \<in> set (hrefs S)" and "href_kept h" and "resolve W startUrl h = Some l"
    and "url_hostname W l = Some baseDomain"
  using assms by (cases rule: link_path.cases) auto

lemmas site_eval = site_def blog_site_def page_dom_def hrefs_def href_kept_def resolve_def
  startsWith_def List.map_filter_def

lemma blog_path_1:
  "link_path blog_site ''https://example.test/blog'' ''example.test'' (Suc 0)
     ''https://example.test/''"
  by (rule link_path.link [OF link_path.seed, where code = 200 and body = "''blog page''"
        and S = "page_dom [''Blog''] [''/'']" and h = "''/''"])
     (simp_all add: site_eval)

lemma blog_path_2:
  "link_path blog_site ''https://example.test/blog'' ''example.test'' (Suc (Suc 0))
     ''https://example.test/contact''"
  by (rule link_path.link [OF blog_path_1, where code = 200 and body = "''home page''"
        and S = "page_dom [''Home''] [''/about'', ''/contact'']" and h = "''/contact''"])
     (simp_all add: site_eval)

lemma blog_no_path_1:
  "\<not> link_path blog_site ''https://example.test/blog'' ''example.test'' (Suc 0)
       ''https://example.test/contact''"
proof
  assume "link_path blog_site ''https://example.test/blog'' ''example.test'' (Suc 0)
            ''https://example.test/contact''"
  then obtain v code body S h where
    v: "link_path blog_site ''https://example.test/blog'' ''example.test'' 0 v"
    and a: "axios_get blog_site v = Resolved code body"
    and c: "cheerio_load blog_site body = Some S"
    and h: "h \<in> set (hrefs S)"
    and r: "resolve blog_site ''https://example.test/blog'' h = Some ''https://example.test/contact''"
    by (rule link_path_Suc)
  from link_path_0 [OF v] have "v = ''https://example.test/blog''" .
  with a have "body = ''blog page''" by (simp add: blog_site_def)
  with c have "S = page_dom [''Blog''] [''/'']" by (simp add: blog_site_def)
  with h have "h = ''/''" by (simp add: site_eval)
  with r show False by (simp add: site_eval)
qed

lemma local_no_path_1:
  "\<not> link_path local_site ''https://example.test/blog'' ''example.test'' (Suc 0)
       ''https://example.test/contact''"
proof
  assume "link_path local_site ''https://example.test/blog'' ''example.test'' (Suc 0)
            ''https://example.test/contact''"
  then obtain v code body S h where
    v: "link_path local_site ''https://example.test/blog'' ''example.test'' 0 v"
    and a: "axios_get local_site v = Resolved code body"
    and c: "cheerio_load local_site body = Some S"
    and h: "h \<in> set (hrefs S)"
    and r: "resolve local_site ''https://example.test/blog'' h = Some ''https://example.test/contact''"
    by (rule link_path_Suc)
  from link_path_0 [OF v] have "v = ''https://example.test/blog''" .
  with a have "body = ''blog page''" by (simp add: local_site_def blog_site_def)
  with c have "S = page_dom [''Blog''] [''/'']" by (simp add: local_site_def blog_site_def)
  with h have "h = ''/''" by (simp add: site_eval)
  with r show False by (simp add: local_site_def site_eval)
qed

section \<open>Properties of \<open>crawlSite\<close>\<close>

subsection \<open>Runs on the example site\<close>

lemmas crawl_eval = crawlSite_def crawl_loop.simps step_def visit_def Let_def site_def page_dom_def
  fresh_def page_links_def hrefs_def href_kept_def resolve_def startsWith_def enqueue_def
  ok_record_def error_record_def err_status_def List.map_filter_def text_of_def trim_def
  is_space_def attr_of_def or_empty_def

lemma site_crawl:
  "crawlSite (site [''Home''] [''/about'']) fresh ''https://example.test/'' 3 =
     (Inr [ok_record (page_dom [''Home''] [''/about'']) ''https://example.test/'' 200 0,
           error_record ''https://example.test/about'' (Code 404) 1],
      \<lparr>visited = {''https://example.test/about'', ''https://example.test/''}, queue = [],
       requests = [''https://example.test/'', ''https://example.test/about'']\<rparr>)"
  by (simp add: crawl_eval)


lemmas run_eval = initial_def proceed_def start_call_def resume_call_def handle_response_def
  Let_def site_def page_dom_def fresh_def page_links_def hrefs_def href_kept_def resolve_def
  startsWith_def enqueue_def ok_record_def error_record_def err_status_def List.map_filter_def
  text_of_def trim_def is_space_def attr_of_def or_empty_def

lemma site_run:
  "outcomes (run (site [''Home''] [''/about''])
       [Start ''https://example.test/'' 3, Resume 0, Resume 0] initial) =
     [(''https://example.test/'', 3,
       Inr [ok_record (page_dom [''Home''] [''/about'']) ''https://example.test/'' 200 0,
            error_record ''https://example.test/about'' (Code 404) 1])]"
  by (simp add: run_eval)

lemma replicate_5: "replicate 5 x = [x, x, x, x, x]"
  by (simp add: numeral_eq_Suc)

lemma replicate_2: "replicate 2 x = [x, x]"
  by (simp add: numeral_eq_Suc)

text \<open>\<open>trim\<close> on a text with a byte order mark, a no-break space, a line separator and an
  ideographic space at its ends.\<close>

lemma trim_unicode:
  "trim ([0xFEFF, 0xA0, 0x20] @ map of_char ''Home page'' @ [0x2028, 0x3000, 0x0A])
     = map of_char ''Home page''"
  by (simp add: trim_def is_space_def)

subsection \<open>An unparseable start URL\<close>

text \<open>
  C8. When \<open>startUrl\<close> is not parseable as a URL, \<open>crawlSite\<close> throws before the loop
  starts: the call ends with the TypeError of \<open>new URL(startUrl)\<close>, no request is made,
  nothing is marked visited and no report is returned. The seed that line 9 pushed stays
  on the module-level queue.
\<close>

theorem crawlSite_unparseable_startUrl:
  assumes "url_hostname W startUrl = None"
  shows "fst (crawlSite W st startUrl maxDepth) = Inl TypeError \<and>
         requests (snd (crawlSite W st startUrl maxDepth)) = requests st \<and>
         visited (snd (crawlSite W st startUrl maxDepth)) = visited st \<and>
         queue (snd (crawlSite W st startUrl maxDepth))
           = queue st @ [\<lparr>item_url = startUrl, item_depth = 0\<rparr>]"
  using assms by (simp add: crawlSite_def Let_def)

theorem crawlSite_unparseable_startUrl_witness:
  "url_hostname (site [''Home''] [''/about'']) ''example.test'' = None \<and>
   fst (crawlSite (site [''Home''] [''/about'']) fresh ''example.test'' 3) = Inl TypeError \<and>
   requests (snd (crawlSite (site [''Home''] [''/about'']) fresh ''example.test'' 3)) = []"
proof -
  have h: "url_hostname (site [''Home''] [''/about'']) ''example.test'' = None"
    by (simp add: site_def)
  from crawlSite_unparseable_startUrl [OF h, of fresh 3] h show ?thesis
    by (simp add: fresh_def)
qed

subsection \<open>The module-level state across calls\<close>



subsection \<open>A page with a relative href\<close>

text \<open>
  C1 does not hold of the code. The home page has the link \<open>about.html\<close>; line 30 pushes
  the entry of the page, then \<open>new URL('about.html')\<close> throws on line 39 and line 47
  pushes a second entry for the same URL.
\<close>

theorem relative_href_repeats_url:
  "fst (crawlSite (site [''Home''] [''about.html'']) fresh ''https://example.test/'' 3) =
     Inr [ok_record (page_dom [''Home''] [''about.html'']) ''https://example.test/'' 200 0,
          error_record ''https://example.test/'' Erro 0] \<and>
   \<not> distinct (map url
     [ok_record (page_dom [''Home''] [''about.html'']) ''https://example.test/'' 200 0,
      error_record ''https://example.test/'' Erro 0])"
  by (simp add: crawl_eval)

text \<open>
  C2 does not hold of the code. One iteration on the item of the home page, which is not
  visited and within the depth bound, appends two entries to the report.
\<close>

theorem relative_href_two_entries:
  "''https://example.test/'' \<notin> visited fresh \<and>
   step (site [''Home''] [''about.html'']) ''https://example.test/'' ''example.test'' 3
     (fresh\<lparr>queue := [\<lparr>item_url = ''https://example.test/'', item_depth = 0\<rparr>]\<rparr>, []) =
     (\<lparr>visited = {''https://example.test/''}, queue = [], requests = [''https://example.test/'']\<rparr>,
      [ok_record (page_dom [''Home''] [''about.html'']) ''https://example.test/'' 200 0,
       error_record ''https://example.test/'' Erro 0])"
  by (simp add: crawl_eval)

text \<open>
  C3 does not hold of the code. With the single link \<open>/contact\<close> the contact page is
  crawled. With the relative href \<open>about.html\<close> before it, the report gets a second entry
  for the home page and \<open>/contact\<close> is never requested.
\<close>

theorem relative_href_drops_all_links:
  "crawlSite (site [''Home''] [''/contact'']) fresh ''https://example.test/'' 3 =
     (Inr [ok_record (page_dom [''Home''] [''/contact'']) ''https://example.test/'' 200 0,
           ok_record (page_dom [''Contact''] []) ''https://example.test/contact'' 200 1],
      \<lparr>visited = {''https://example.test/contact'', ''https://example.test/''}, queue = [],
       requests = [''https://example.test/'', ''https://example.test/contact'']\<rparr>) \<and>
   crawlSite (site [''Home''] [''about.html'', ''/contact'']) fresh ''https://example.test/'' 3 =
     (Inr [ok_record (page_dom [''Home''] [''about.html'', ''/contact'']) ''https://example.test/'' 200 0,
           error_record ''https://example.test/'' Erro 0],
      \<lparr>visited = {''https://example.test/''}, queue = [],
       requests = [''https://example.test/'']\<rparr>)"
  by (simp add: crawl_eval)

subsection \<open>Failed requests\<close>

text \<open>
  C7. An entry of a report for a URL whose request fails has, as its status, the HTTP
  status of the response that came with the error, if there is one (and it is not 0), and
  the marker \<open>'Erro'\<close> if there is none; this holds in every run of the process, for calls
  that overlap too. And a call has exactly one entry for a URL that it requested and whose
  request fails: the entry of line 47, with that status and no content field.
\<close>

theorem failed_fetch_status:
  "((startUrl, maxDepth, Inr report) \<in> set (outcomes (run W evs initial)) \<longrightarrow>
      (\<forall>r \<in> set report. \<forall>x. axios_get W (url r) = Rejected x \<longrightarrow>
         (\<forall>n. x = Some n \<longrightarrow> 0 < n \<longrightarrow> status r = Code n) \<and>
         (x = None \<longrightarrow> status r = Erro) \<and>
         (x = Some 0 \<longrightarrow> status r = Erro))) \<and>
   (crawlSite W st startUrl maxDepth = (Inr report, st') \<longrightarrow>
    u \<in> set (drop (length (requests st)) (requests st')) \<longrightarrow>
    axios_get W u = Rejected x \<longrightarrow>
      (\<exists>r. entries_of u report = [r] \<and> url r = u \<and> depth r \<le> maxDepth \<and>
           (\<forall>n. x = Some n \<longrightarrow> 0 < n \<longrightarrow> status r = Code n) \<and>
           (x = None \<longrightarrow> status r = Erro) \<and>
           (x = Some 0 \<longrightarrow> status r = Erro) \<and>
           title r = None \<and> description r = None \<and> h1 r = None \<and> h2 r = None \<and>
           canonical r = None \<and> noindex r = None))"
proof (intro conjI impI ballI allI)
  fix r y
  assume "(startUrl, maxDepth, Inr report) \<in> set (outcomes (run W evs initial))"
    and r: "r \<in> set report" and y: "axios_get W (url r) = Rejected y"
  from run_entries [OF this(1)] r obtain b where
    "r \<in> set (visit_records W startUrl b (url r) (depth r))"
    by blast
  from visit_records_rejected_fields [OF this y] have s: "status r = err_status y"
    by simp
  show "\<And>n. y = Some n \<Longrightarrow> 0 < n \<Longrightarrow> status r = Code n"
    using s by (simp add: err_status_def)
  show "y = None \<Longrightarrow> status r = Erro"
    using s by (simp add: err_status_def)
  show "y = Some 0 \<Longrightarrow> status r = Erro"
    using s by (simp add: err_status_def)
next
  assume c: "crawlSite W st startUrl maxDepth = (Inr report, st')"
    and m: "u \<in> set (drop (length (requests st)) (requests st'))"
    and a: "axios_get W u = Rejected x"
  from c obtain b new where "url_hostname W startUrl = Some b"
    and "visited st \<subseteq> visited st'"
    and rq: "requests st' = requests st @ new" and "distinct new"
    and "set new = visited st' - visited st"
    and e: "\<And>v. v \<in> set new \<Longrightarrow>
           \<exists>d \<le> maxDepth. entries_of v report = visit_records W startUrl b v d"
    and "\<And>v. v \<notin> set new \<Longrightarrow> entries_of v report = []"
    by (rule crawlSite_visits) blast
  from rq m have "u \<in> set new" by simp
  from e [OF this] a
  obtain d where d: "d \<le> maxDepth"
    and r: "entries_of u report = [error_record u (err_status x) d]"
    by (auto simp: visit_records_def)
  let ?r = "error_record u (err_status x) d"
  have "url ?r = u" and "depth ?r \<le> maxDepth"
    and "\<forall>n. x = Some n \<longrightarrow> 0 < n \<longrightarrow> status ?r = Code n"
    and "x = None \<longrightarrow> status ?r = Erro" and "x = Some 0 \<longrightarrow> status ?r = Erro"
    and "title ?r = None" and "description ?r = None" and "h1 ?r = None" and "h2 ?r = None"
    and "canonical ?r = None" and "noindex ?r = None"
    using d by (simp_all add: error_record_def err_status_def)
  with r show "\<exists>r. entries_of u report = [r] \<and> url r = u \<and> depth r \<le> maxDepth \<and>
           (\<forall>n. x = Some n \<longrightarrow> 0 < n \<longrightarrow> status r = Code n) \<and>
           (x = None \<longrightarrow> status r = Erro) \<and>
           (x = Some 0 \<longrightarrow> status r = Erro) \<and>
           title r = None \<and> description r = None \<and> h1 r = None \<and> h2 r = None \<and>
           canonical r = None \<and> noindex r = None"
    by blast
qed

theorem failed_fetch_status_witness:
  "(''https://example.test/'', 3,
      Inr [ok_record (page_dom [''Home''] [''/about'']) ''https://example.test/'' 200 0,
           error_record ''https://example.test/about'' (Code 404) 1])
     \<in> set (outcomes (run (site [''Home''] [''/about''])
                [Start ''https://example.test/'' 3, Resume 0, Resume 0] initial)) \<and>
   crawlSite (site [''Home''] [''/about'']) fresh ''https://example.test/'' 3 =
     (Inr [ok_record (page_dom [''Home''] [''/about'']) ''https://example.test/'' 200 0,
           error_record ''https://example.test/about'' (Code 404) 1],
      \<lparr>visited = {''https://example.test/about'', ''https://example.test/''}, queue = [],
       requests = [''https://example.test/'', ''https://example.test/about'']\<rparr>) \<and>
   ''https://example.test/about'' \<in> set (drop (length (requests fresh))
       [''https://example.test/'', ''https://example.test/about'']) \<and>
   axios_get (site [''Home''] [''/about'']) ''https://example.test/about'' = Rejected (Some 404) \<and>
   entries_of ''https://example.test/about''
     [ok_record (page_dom [''Home''] [''/about'']) ''https://example.test/'' 200 0,
      error_record ''https://example.test/about'' (Code 404) 1]
     = [\<lparr>url = ''https://example.test/about'', status = Code 404, title = None,
         description = None, h1 = None, h2 = None, canonical = None, noindex = None,
         depth = 1\<rparr>] \<and>
   status \<lparr>url = ''https://example.test/about'', status = Code 404, title = None,
           description = None, h1 = None, h2 = None, canonical = None, noindex = None,
           depth = 1\<rparr> = Code 404"
proof -
  let ?W = "site [''Home''] [''/about'']"
  let ?R = "[ok_record (page_dom [''Home''] [''/about'']) ''https://example.test/'' 200 0,
             error_record ''https://example.test/about'' (Code 404) 1]"
  let ?st = "\<lparr>visited = {''https://example.test/about'', ''https://example.test/''},
              queue = [],
              requests = [''https://example.test/'', ''https://example.test/about'']\<rparr>"
  let ?e = "\<lparr>url = ''https://example.test/about'', status = Code 404, title = None,
             description = None, h1 = None, h2 = None, canonical = None, noindex = None,
             depth = 1\<rparr>"
  have o: "(''https://example.test/'', 3, Inr ?R)
             \<in> set (outcomes (run ?W [Start ''https://example.test/'' 3, Resume 0, Resume 0]
                                initial))"
    unfolding site_run by simp
  have a: "axios_get ?W ''https://example.test/about'' = Rejected (Some 404)"
    by (simp add: site_def)
  have m: "''https://example.test/about'' \<in> set (drop (length (requests fresh)) (requests ?st))"
    by (simp add: fresh_def)
  have e: "entries_of ''https://example.test/about'' ?R = [?e]"
    by (simp add: entries_of_def ok_record_def error_record_def)
  note f = failed_fetch_status [of "''https://example.test/''" 3 ?R ?W
             "[Start ''https://example.test/'' 3, Resume 0, Resume 0]" fresh ?st
             "''https://example.test/about''" "Some 404"]
  from f site_crawl m a obtain r where
    "entries_of ''https://example.test/about'' ?R = [r]"
    and "\<forall>n. Some (404::nat) = Some n \<longrightarrow> 0 < n \<longrightarrow> status r = Code n"
    by blast
  with e have s: "status ?e = Code 404"
    by simp
  from o site_crawl m a e s show ?thesis
    by simp
qed

subsection \<open>The title\<close>




subsection \<open>The depth bound\<close>

text \<open>
  C4, as stated, fails on its second half when calls overlap. A call for the home page is
  waiting for the answer of \<open>/about\<close>, and \<open>/contact\<close> is on the shared queue with the
  depth 1, when a call for \<open>/blog\<close> with \<open>maxDepth = 1\<close> starts. That call shifts
  \<open>/contact\<close> from the queue and its report has an entry for it; but from \<open>/blog\<close> the
  contact page is reached by a path of two links, and by no path of fewer links.
\<close>

theorem link_distance_counterexample:
  "outcomes (run blog_site
       [Start ''https://example.test/'' 3, Resume 0,
        Start ''https://example.test/blog'' 1, Resume 1, Resume 1] initial) =
     [(''https://example.test/blog'', 1,
       Inr [ok_record (page_dom [''Contact''] []) ''https://example.test/contact'' 200 1,
            ok_record (page_dom [''Blog''] [''/'']) ''https://example.test/blog'' 200 0])] \<and>
   link_path blog_site ''https://example.test/blog'' ''example.test'' 2
     ''https://example.test/contact'' \<and>
   \<not> link_path blog_site ''https://example.test/blog'' ''example.test'' 0
       ''https://example.test/contact'' \<and>
   \<not> link_path blog_site ''https://example.test/blog'' ''example.test'' 1
       ''https://example.test/contact''"
proof -
  have r: "outcomes (run blog_site
       [Start ''https://example.test/'' 3, Resume 0,
        Start ''https://example.test/blog'' 1, Resume 1, Resume 1] initial) =
     [(''https://example.test/blog'', 1,
       Inr [ok_record (page_dom [''Contact''] []) ''https://example.test/contact'' 200 1,
            ok_record (page_dom [''Blog''] [''/'']) ''https://example.test/blog'' 200 0])]"
    by (simp add: run_eval blog_site_def)
  have p0: "\<not> link_path blog_site ''https://example.test/blog'' ''example.test'' 0
       ''https://example.test/contact''"
    using link_path_0 [of blog_site "''https://example.test/blog''" "''example.test''"
                          "''https://example.test/contact''"]
    by auto
  from r p0 blog_path_2 blog_no_path_1 show ?thesis
    by (simp only: One_nat_def numeral_2_eq_2 simp_thms)
qed

text \<open>
  A seed left on the queue by a call that threw can do the same without any overlap, when
  the request for it is answered: behind the client of \<open>local_site\<close>, the call for
  \<open>/blog\<close> with \<open>maxDepth = 1\<close> that follows a call for \<open>example.test\<close> visits that
  string first, puts the links of the home page on the queue at depth 1, and has an entry
  for \<open>/contact\<close>.
\<close>

lemma left_over_seed_answered:
  "outcomes (run local_site
       [Start ''example.test'' 0, Start ''https://example.test/blog'' 1,
        Resume 0, Resume 0, Resume 0, Resume 0, Resume 0] initial) =
     [(''example.test'', 0, Inl TypeError),
      (''https://example.test/blog'', 1,
       Inr [ok_record (page_dom [''Home''] [''/about'', ''/contact'']) ''example.test'' 200 0,
            ok_record (page_dom [''Blog''] [''/'']) ''https://example.test/blog'' 200 0,
            error_record ''https://example.test/about'' (Code 404) 1,
            ok_record (page_dom [''Contact''] []) ''https://example.test/contact'' 200 1,
            ok_record (page_dom [''Home''] [''/about'', ''/contact''])
              ''https://example.test/'' 200 1])] \<and>
   \<not> link_path local_site ''https://example.test/blog'' ''example.test'' 0
       ''https://example.test/contact'' \<and>
   \<not> link_path local_site ''https://example.test/blog'' ''example.test'' 1
       ''https://example.test/contact''"
proof -
  have r: "outcomes (run local_site
       [Start ''example.test'' 0, Start ''https://example.test/blog'' 1,
        Resume 0, Resume 0, Resume 0, Resume 0, Resume 0] initial) =
     [(''example.test'', 0, Inl TypeError),
      (''https://example.test/blog'', 1,
       Inr [ok_record (page_dom [''Home''] [''/about'', ''/contact'']) ''example.test'' 200 0,
            ok_record (page_dom [''Blog''] [''/'']) ''https://example.test/blog'' 200 0,
            error_record ''https://example.test/about'' (Code 404) 1,
            ok_record (page_dom [''Contact''] []) ''https://example.test/contact'' 200 1,
            ok_record (page_dom [''Home''] [''/about'', ''/contact''])
              ''https://example.test/'' 200 1])]"
    by (simp add: run_eval local_site_def blog_site_def)
  have p0: "\<not> link_path local_site ''https://example.test/blog'' ''example.test'' 0
       ''https://example.test/contact''"
    using link_path_0 [of local_site "''https://example.test/blog''" "''example.test''"
                          "''https://example.test/contact''"]
    by auto
  from r p0 local_no_path_1 show ?thesis
    by (simp only: One_nat_def simp_thms)
qed

text \<open>
  C4, amended. In every run of the process, no entry of a report has a depth above the
  \<open>maxDepth\<close> of its call. For a call that starts when no call is in flight and whose
  requests are all answered before another call starts, and when the requests for the
  start URLs that calls which threw left on the queue fail, a URL that paths of links from
  the seed reach, but only paths longer than \<open>maxDepth\<close>, has no entry in the report.

  In the statement, \<open>pre\<close> is the run up to the start of the call, with no call in flight
  at its end; the call starts, the \<open>n\<close> events that follow are answers to its requests
  (it is the only call in flight, at position 0), and it returns \<open>report\<close>.
\<close>

theorem depth_bound:
  "((startUrl, maxDepth, Inr report) \<in> set (outcomes (run W evs initial)) \<longrightarrow>
      (\<forall>r \<in> set report. depth r \<le> maxDepth)) \<and>
   (inflight (run W pre initial) = [] \<longrightarrow>
    (\<forall>q \<in> set (queue (shared (run W pre initial))). \<exists>x. axios_get W (item_url q) = Rejected x) \<longrightarrow>
    outcomes (run W (pre @ Start startUrl maxDepth # replicate n (Resume 0)) initial)
      = outcomes (run W pre initial) @ [(startUrl, maxDepth, Inr report)] \<longrightarrow>
    url_hostname W startUrl = Some baseDomain \<longrightarrow>
    (\<forall>u. (\<exists>m. link_path W startUrl baseDomain m u) \<longrightarrow>
          (\<forall>k. link_path W startUrl baseDomain k u \<longrightarrow> maxDepth < k) \<longrightarrow>
          u \<notin> url ` set report))"
proof (intro conjI impI allI)
  assume "(startUrl, maxDepth, Inr report) \<in> set (outcomes (run W evs initial))"
  then show "\<forall>r \<in> set report. depth r \<le> maxDepth"
    by (rule run_depth_bound)
next
  fix u
  assume idle: "inflight (run W pre initial) = []"
    and fail: "\<forall>q \<in> set (queue (shared (run W pre initial))).
                 \<exists>x. axios_get W (item_url q) = Rejected x"
    and out: "outcomes (run W (pre @ Start startUrl maxDepth # replicate n (Resume 0)) initial)
                = outcomes (run W pre initial) @ [(startUrl, maxDepth, Inr report)]"
    and host: "url_hostname W startUrl = Some baseDomain"
    and near: "\<exists>m. link_path W startUrl baseDomain m u"
    and far: "\<forall>k. link_path W startUrl baseDomain k u \<longrightarrow> maxDepth < k"
  from out have "outcomes (run W (Start startUrl maxDepth # replicate n (Resume 0))
                             (run W pre initial))
                   = outcomes (run W pre initial) @ [(startUrl, maxDepth, Inr report)]"
    by (simp add: run_append)
  from solo_report [OF idle this] obtain st' where
    c: "crawlSite W (shared (run W pre initial)) startUrl maxDepth = (Inr report, st')"
    by blast
  from run_idle_queue [OF idle] fail
  have l: "\<forall>q \<in> set (queue (shared (run W pre initial))). left_over W (item_url q)"
    by (simp add: left_over_def)
  from near obtain m where "link_path W startUrl baseDomain m u"
    by blast
  from crawlSite_link_distance [OF l c host this far] show "u \<notin> url ` set report" .
qed

theorem depth_bound_witness:
  "(''https://example.test/blog'', 1,
      Inr [error_record ''example.test'' Erro 0,
           ok_record (page_dom [''Blog''] [''/'']) ''https://example.test/blog'' 200 0,
           ok_record (page_dom [''Home''] [''/about'', ''/contact'']) ''https://example.test/'' 200 1])
     \<in> set (outcomes (run blog_site
         ([Start ''example.test'' 0] @ Start ''https://example.test/blog'' 1 # replicate 3 (Resume 0))
         initial)) \<and>
   inflight (run blog_site [Start ''example.test'' 0] initial) = [] \<and>
   queue (shared (run blog_site [Start ''example.test'' 0] initial))
     = [\<lparr>item_url = ''example.test'', item_depth = 0\<rparr>] \<and>
   axios_get blog_site ''example.test'' = Rejected None \<and>
   outcomes (run blog_site
       ([Start ''example.test'' 0] @ Start ''https://example.test/blog'' 1 # replicate 3 (Resume 0))
       initial)
     = outcomes (run blog_site [Start ''example.test'' 0] initial) @
       [(''https://example.test/blog'', 1,
         Inr [error_record ''example.test'' Erro 0,
              ok_record (page_dom [''Blog''] [''/'']) ''https://example.test/blog'' 200 0,
              ok_record (page_dom [''Home''] [''/about'', ''/contact''])
                ''https://example.test/'' 200 1])] \<and>
   url_hostname blog_site ''https://example.test/blog'' = Some ''example.test'' \<and>
   link_path blog_site ''https://example.test/blog'' ''example.test'' 2
     ''https://example.test/contact'' \<and>
   \<not> link_path blog_site ''https://example.test/blog'' ''example.test'' 0
       ''https://example.test/contact'' \<and>
   \<not> link_path blog_site ''https://example.test/blog'' ''example.test'' 1
       ''https://example.test/contact'' \<and>
   list_all (\<lambda>r. depth r \<le> 1)
     [error_record ''example.test'' Erro 0,
      ok_record (page_dom [''Blog''] [''/'']) ''https://example.test/blog'' 200 0,
      ok_record (page_dom [''Home''] [''/about'', ''/contact'']) ''https://example.test/'' 200 1] \<and>
   ''https://example.test/contact'' \<notin> url ` set
       [error_record ''example.test'' Erro 0,
        ok_record (page_dom [''Blog''] [''/'']) ''https://example.test/blog'' 200 0,
        ok_record (page_dom [''Home''] [''/about'', ''/contact'']) ''https://example.test/'' 200 1]"
proof -
  let ?pre = "[Start ''example.test'' 0]"
  let ?R = "[error_record ''example.test'' Erro 0,
             ok_record (page_dom [''Blog''] [''/'']) ''https://example.test/blog'' 200 0,
             ok_record (page_dom [''Home''] [''/about'', ''/contact''])
               ''https://example.test/'' 200 1]"
  have i: "inflight (run blog_site ?pre initial) = []"
    by (simp add: run_eval blog_site_def)
  have q: "queue (shared (run blog_site ?pre initial))
             = [\<lparr>item_url = ''example.test'', item_depth = 0\<rparr>]"
    by (simp add: run_eval blog_site_def)
  have a: "axios_get blog_site ''example.test'' = Rejected None"
    by (simp add: blog_site_def)
  have o: "outcomes (run blog_site
               (?pre @ Start ''https://example.test/blog'' 1 # replicate 3 (Resume 0)) initial)
             = outcomes (run blog_site ?pre initial) @ [(''https://example.test/blog'', 1, Inr ?R)]"
    by (simp add: run_eval blog_site_def numeral_3_eq_3)
  have h: "url_hostname blog_site ''https://example.test/blog'' = Some ''example.test''"
    by (simp add: blog_site_def)
  have p: "link_path blog_site ''https://example.test/blog'' ''example.test'' 2
             ''https://example.test/contact''"
    using blog_path_2 by (simp only: numeral_2_eq_2)
  have f: "\<forall>k. link_path blog_site ''https://example.test/blog'' ''example.test'' k
                 ''https://example.test/contact'' \<longrightarrow> 1 < k"
  proof (intro allI impI)
    fix k
    assume k: "link_path blog_site ''https://example.test/blog'' ''example.test'' k
                 ''https://example.test/contact''"
    have "k \<noteq> 0"
    proof
      assume "k = 0"
      with k link_path_0 [of blog_site "''https://example.test/blog''" "''example.test''"
                             "''https://example.test/contact''"]
      show False by simp
    qed
    moreover have "k \<noteq> Suc 0"
    proof
      assume "k = Suc 0"
      with k blog_no_path_1 show False by simp
    qed
    ultimately show "1 < k"
      by arith
  qed
  have m: "(''https://example.test/blog'', 1, Inr ?R) \<in> set (outcomes (run blog_site
             (?pre @ Start ''https://example.test/blog'' 1 # replicate 3 (Resume 0)) initial))"
    unfolding o by simp
  have fl: "\<forall>q \<in> set (queue (shared (run blog_site ?pre initial))).
              \<exists>x. axios_get blog_site (item_url q) = Rejected x"
    unfolding q using a by simp
  from depth_bound [of "''https://example.test/blog''" 1 ?R blog_site
         "?pre @ Start ''https://example.test/blog'' 1 # replicate 3 (Resume 0)" ?pre 3
         "''example.test''"] m i fl o h p f
  have "(\<forall>r \<in> set ?R. depth r \<le> 1) \<and> ''https://example.test/contact'' \<notin> url ` set ?R"
    by blast
  then have c: "list_all (\<lambda>r. depth r \<le> 1) ?R"
    and d: "''https://example.test/contact'' \<notin> url ` set ?R"
    unfolding list_all_iff by blast+
  have n0: "\<not> link_path blog_site ''https://example.test/blog'' ''example.test'' 0
              ''https://example.test/contact''"
    using f by auto
  have n1: "\<not> link_path blog_site ''https://example.test/blog'' ''example.test'' 1
              ''https://example.test/contact''"
    using f by auto
  from m i q a o h p n0 n1 c d show ?thesis
    by (intro conjI)
qed

subsection \<open>Breadth-first order\<close>

text \<open>
  C5, as stated, fails when calls overlap. In the run above with \<open>maxDepth = 3\<close> for both
  calls, the call for \<open>/blog\<close> visits \<open>/contact\<close>, which the other call had put on the queue
  at depth 1, before its own seed: the depths of its report are 1, then 0.
\<close>

theorem overlapping_calls_depth_order:
  "outcomes (run blog_site
       [Start ''https://example.test/'' 3, Resume 0,
        Start ''https://example.test/blog'' 3, Resume 1, Resume 1] initial) =
     [(''https://example.test/blog'', 3,
       Inr [ok_record (page_dom [''Contact''] []) ''https://example.test/contact'' 200 1,
            ok_record (page_dom [''Blog''] [''/'']) ''https://example.test/blog'' 200 0])] \<and>
   map depth [ok_record (page_dom [''Contact''] []) ''https://example.test/contact'' 200 1,
              ok_record (page_dom [''Blog''] [''/'']) ''https://example.test/blog'' 200 0]
     = [1, 0] \<and>
   \<not> sorted (map depth
       [ok_record (page_dom [''Contact''] []) ''https://example.test/contact'' 200 1,
        ok_record (page_dom [''Blog''] [''/'']) ''https://example.test/blog'' 200 0])"
  by (simp add: run_eval blog_site_def)

text \<open>
  C5, amended. For a call that starts when no call is in flight and whose requests are all
  answered before another call starts, the report is in breadth-first order: the depths of
  its entries never decrease along the report, so an entry of a smaller depth comes before
  any entry of a greater depth.
\<close>

theorem breadth_first_order:
  assumes "inflight (run W pre initial) = []"
    and "outcomes (run W (pre @ Start startUrl maxDepth # replicate n (Resume 0)) initial)
           = outcomes (run W pre initial) @ [(startUrl, maxDepth, Inr report)]"
  shows "sorted (map depth report) \<and>
         (\<forall>i j. i < length report \<longrightarrow> j < length report \<longrightarrow>
                 depth (report ! i) < depth (report ! j) \<longrightarrow> i < j)"
proof -
  from assms(2) have "outcomes (run W (Start startUrl maxDepth # replicate n (Resume 0))
                                  (run W pre initial))
                        = outcomes (run W pre initial) @ [(startUrl, maxDepth, Inr report)]"
    by (simp add: run_append)
  from solo_report [OF assms(1) this] obtain st' where
    c: "crawlSite W (shared (run W pre initial)) startUrl maxDepth = (Inr report, st')"
    by blast
  from run_idle_queue [OF assms(1)]
  have "\<forall>q \<in> set (queue (shared (run W pre initial))). item_depth q = 0"
    by simp
  from crawlSite_breadth_first [OF this c] have s: "sorted (map depth report)" .
  have "i < j" if "i < length report" "j < length report"
    "depth (report ! i) < depth (report ! j)" for i j
  proof (rule ccontr)
    assume "\<not> i < j"
    then have "j \<le> i" by simp
    from sorted_nth_mono [OF s this] that(1,2)
    have "depth (report ! j) \<le> depth (report ! i)" by simp
    with that(3) show False by simp
  qed
  with s show ?thesis by blast
qed

theorem breadth_first_order_witness:
  "inflight (run blog_site [Start ''example.test'' 0] initial) = [] \<and>
   outcomes (run blog_site
       ([Start ''example.test'' 0] @ Start ''https://example.test/blog'' 3 # replicate 5 (Resume 0))
       initial)
     = outcomes (run blog_site [Start ''example.test'' 0] initial) @
       [(''https://example.test/blog'', 3,
         Inr [error_record ''example.test'' Erro 0,
              ok_record (page_dom [''Blog''] [''/'']) ''https://example.test/blog'' 200 0,
              ok_record (page_dom [''Home''] [''/about'', ''/contact''])
                ''https://example.test/'' 200 1,
              error_record ''https://example.test/about'' (Code 404) 2,
              ok_record (page_dom [''Contact''] []) ''https://example.test/contact'' 200 2])] \<and>
   sorted (map depth
     [error_record ''example.test'' Erro 0,
      ok_record (page_dom [''Blog''] [''/'']) ''https://example.test/blog'' 200 0,
      ok_record (page_dom [''Home''] [''/about'', ''/contact'']) ''https://example.test/'' 200 1,
      error_record ''https://example.test/about'' (Code 404) 2,
      ok_record (page_dom [''Contact''] []) ''https://example.test/contact'' 200 2])"
proof -
  let ?pre = "[Start ''example.test'' 0]"
  let ?R = "[error_record ''example.test'' Erro 0,
             ok_record (page_dom [''Blog''] [''/'']) ''https://example.test/blog'' 200 0,
             ok_record (page_dom [''Home''] [''/about'', ''/contact''])
               ''https://example.test/'' 200 1,
             error_record ''https://example.test/about'' (Code 404) 2,
             ok_record (page_dom [''Contact''] []) ''https://example.test/contact'' 200 2]"
  have i: "inflight (run blog_site ?pre initial) = []"
    by (simp add: run_eval blog_site_def)
  have o: "outcomes (run blog_site
               (?pre @ Start ''https://example.test/blog'' 3 # replicate 5 (Resume 0)) initial)
             = outcomes (run blog_site ?pre initial) @ [(''https://example.test/blog'', 3, Inr ?R)]"
    by (simp add: run_eval blog_site_def replicate_5)
  from breadth_first_order [OF i o] have "sorted (map depth ?R)"
    by (rule conjunct1)
  with i o show ?thesis
    by (intro conjI)
qed

subsection \<open>Domain scoping\<close>

text \<open>
  C6, as stated, fails on its consequence when calls overlap. A call for the home page of
  \<open>example.test\<close> has put \<open>/contact\<close> on the shared queue when a call for
  \<open>https://other.test/page\<close> starts: the report of that call has an entry for
  \<open>https://example.test/contact\<close>, whose hostname is not that of its seed.
\<close>

theorem overlapping_calls_other_host:
  "outcomes (run (site [''Home''] [''/about'', ''/contact''])
       [Start ''https://example.test/'' 3, Resume 0,
        Start ''https://other.test/page'' 3, Resume 1, Resume 1] initial) =
     [(''https://other.test/page'', 3,
       Inr [ok_record (page_dom [''Contact''] []) ''https://example.test/contact'' 200 1,
            error_record ''https://other.test/page'' Erro 0])] \<and>
   url_hostname (site [''Home''] [''/about'', ''/contact'']) ''https://other.test/page''
     = Some ''other.test'' \<and>
   url (ok_record (page_dom [''Contact''] []) ''https://example.test/contact'' 200 1)
     = ''https://example.test/contact'' \<and>
   url_hostname (site [''Home''] [''/about'', ''/contact'']) ''https://example.test/contact''
     = Some ''example.test''"
  by (simp add: run_eval)

text \<open>
  C6, amended. The links that a call puts on the queue are those of \<open>page_links\<close>: a link
  is among them only if the hostname that \<open>new URL\<close> gives for it is equal to that of the
  \<open>startUrl\<close> of the call. And for a call that starts when no call is in flight and whose
  requests are all answered before another call starts, no entry of the report is for a
  URL whose hostname is a different one.
\<close>

theorem domain_scoping:
  "(\<forall>S links l. page_links W startUrl baseDomain S = Some links \<longrightarrow> l \<in> set links
      \<longrightarrow> url_hostname W l = Some baseDomain) \<and>
   (inflight (run W pre initial) = [] \<longrightarrow>
    outcomes (run W (pre @ Start startUrl maxDepth # replicate n (Resume 0)) initial)
      = outcomes (run W pre initial) @ [(startUrl, maxDepth, Inr report)] \<longrightarrow>
    url_hostname W startUrl = Some baseDomain \<longrightarrow>
    (\<forall>r \<in> set report. \<forall>h. url_hostname W (url r) = Some h \<longrightarrow> h = baseDomain))"
proof (intro conjI allI impI)
  fix S links l
  assume "page_links W startUrl baseDomain S = Some links" and "l \<in> set links"
  from page_links_sound [OF this] show "url_hostname W l = Some baseDomain"
    by simp
next
  assume idle: "inflight (run W pre initial) = []"
    and out: "outcomes (run W (pre @ Start startUrl maxDepth # replicate n (Resume 0)) initial)
                = outcomes (run W pre initial) @ [(startUrl, maxDepth, Inr report)]"
    and host: "url_hostname W startUrl = Some baseDomain"
  from out have "outcomes (run W (Start startUrl maxDepth # replicate n (Resume 0))
                             (run W pre initial))
                   = outcomes (run W pre initial) @ [(startUrl, maxDepth, Inr report)]"
    by (simp add: run_append)
  from solo_report [OF idle this] obtain st' where
    c: "crawlSite W (shared (run W pre initial)) startUrl maxDepth = (Inr report, st')"
    by blast
  from run_idle_queue [OF idle]
  have "\<forall>q \<in> set (queue (shared (run W pre initial))). url_hostname W (item_url q) = None"
    by simp
  from crawlSite_hosts [OF this c host]
  show "\<forall>r \<in> set report. \<forall>h. url_hostname W (url r) = Some h \<longrightarrow> h = baseDomain" .
qed

theorem domain_scoping_witness:
  "inflight (run (site [''Home''] [''/about'', ''https://other.test/page'']) [] initial) = [] \<and>
   outcomes (run (site [''Home''] [''/about'', ''https://other.test/page''])
       ([] @ Start ''https://example.test/'' 3 # replicate 2 (Resume 0)) initial)
     = outcomes (run (site [''Home''] [''/about'', ''https://other.test/page'']) [] initial) @
       [(''https://example.test/'', 3,
         Inr [ok_record (page_dom [''Home''] [''/about'', ''https://other.test/page''])
                ''https://example.test/'' 200 0,
              error_record ''https://example.test/about'' (Code 404) 1])] \<and>
   url_hostname (site [''Home''] [''/about'', ''https://other.test/page''])
     ''https://example.test/'' = Some ''example.test'' \<and>
   page_links (site [''Home''] [''/about'', ''https://other.test/page''])
       ''https://example.test/'' ''example.test''
       (page_dom [''Home''] [''/about'', ''https://other.test/page''])
     = Some [''https://example.test/about''] \<and>
   url_hostname (site [''Home''] [''/about'', ''https://other.test/page''])
     ''https://example.test/about'' = Some ''example.test'' \<and>
   url_hostname (site [''Home''] [''/about'', ''https://other.test/page''])
     ''https://other.test/page'' = Some ''other.test'' \<and>
   ''https://other.test/page'' \<notin> url ` set
     [ok_record (page_dom [''Home''] [''/about'', ''https://other.test/page''])
        ''https://example.test/'' 200 0,
      error_record ''https://example.test/about'' (Code 404) 1]"
proof -
  let ?W = "site [''Home''] [''/about'', ''https://other.test/page'']"
  let ?R = "[ok_record (page_dom [''Home''] [''/about'', ''https://other.test/page''])
               ''https://example.test/'' 200 0,
             error_record ''https://example.test/about'' (Code 404) 1]"
  have i: "inflight (run ?W [] initial) = []"
    by (simp add: initial_def)
  have o: "outcomes (run ?W ([] @ Start ''https://example.test/'' 3 # replicate 2 (Resume 0))
                       initial)
             = outcomes (run ?W [] initial) @ [(''https://example.test/'', 3, Inr ?R)]"
    by (simp add: run_eval replicate_2)
  have h: "url_hostname ?W ''https://example.test/'' = Some ''example.test''"
    by (simp add: site_def)
  have ho: "url_hostname ?W ''https://other.test/page'' = Some ''other.test''"
    by (simp add: site_def)
  have p: "page_links ?W ''https://example.test/'' ''example.test''
       (page_dom [''Home''] [''/about'', ''https://other.test/page''])
     = Some [''https://example.test/about'']"
    by (simp add: site_def page_dom_def page_links_def hrefs_def href_kept_def resolve_def
          startsWith_def List.map_filter_def)
  have m: "''https://example.test/about'' \<in> set [''https://example.test/about'']"
    by simp
  note d = domain_scoping [of ?W "''https://example.test/''" "''example.test''" "[]" 3 2 ?R]
  from d have "\<forall>S links l. page_links ?W ''https://example.test/'' ''example.test'' S = Some links
          \<longrightarrow> l \<in> set links \<longrightarrow> url_hostname ?W l = Some ''example.test''"
    by (rule conjunct1)
  with p m have a: "url_hostname ?W ''https://example.test/about'' = Some ''example.test''"
    by blast
  from d i o h
  have b: "\<forall>r \<in> set ?R. \<forall>h. url_hostname ?W (url r) = Some h \<longrightarrow> h = ''example.test''"
    by blast
  have n: "''https://other.test/page'' \<notin> url ` set ?R"
  proof
    assume "''https://other.test/page'' \<in> url ` set ?R"
    then obtain r where r: "r \<in> set ?R" and u: "url r = ''https://other.test/page''"
      by (rule imageE) simp
    from b r have "\<forall>h. url_hostname ?W (url r) = Some h \<longrightarrow> h = ''example.test''"
      by (rule bspec)
    then have "url_hostname ?W (url r) = Some ''other.test'' \<longrightarrow> ''other.test'' = ''example.test''"
      by (rule spec)
    with u ho show False
      by simp
  qed
  from i o h p a ho n show ?thesis
    by (intro conjI)
qed

end
